theory Spec2Isabelle
  imports Main "HOL-Library.AList"
begin

section \<open>Store values\<close>

text \<open>
  The store of \<^verbatim>\<open>createFastContext<Store>(initialState)\<close> holds a plain object. An
  object is the list of its own properties in creation order; a property value is a
  primitive or again an object, so nesting inside a store value can be expressed.
\<close>

type_synonym key = string

datatype val =
    Undefined
  | Num int
  | Str string
  | Bool bool
  | Obj "(key \<times> val) list"

type_synonym obj = "(key \<times> val) list"

text \<open>An object has each property name once.\<close>

definition wf_obj :: "obj \<Rightarrow> bool" where
  "wf_obj ob = distinct (map fst ob)"

text \<open>
  Object spread, \<^verbatim>\<open>{ ...a, ...b }\<close>: a fresh object receives the own properties of
  \<^verbatim>\<open>a\<close> and then those of \<^verbatim>\<open>b\<close>, each by a property definition that overwrites
  the value of a name already there (keeping its place) and appends a new name.
\<close>

definition copy_props :: "obj \<Rightarrow> obj \<Rightarrow> obj" where
  "copy_props target src = fold (\<lambda>(k, v) t. AList.update k v t) src target"

definition spread :: "obj \<Rightarrow> obj \<Rightarrow> obj" where
  "spread a b = copy_props (copy_props [] a) b"

section \<open>The subscriber registry\<close>

text \<open>
  A subscriber is a closure \<^verbatim>\<open>() => void\<close>; the registry compares closures by
  reference, so a callback is named by its identity.

  \<^verbatim>\<open>new Set<() => void>()\<close> is the entry list of a JavaScript \<^verbatim>\<open>Set\<close>: \<^verbatim>\<open>add\<close>
  appends a value that is not yet an entry, \<^verbatim>\<open>delete\<close> empties the entry of the
  value (the slot stays, so that a running iteration keeps its position), and
  \<^verbatim>\<open>forEach\<close> walks the list by index, re-reading its length at every step and
  passing over emptied slots.
\<close>

type_synonym cb = nat

type_synonym cbset = "cb option list"

definition set_add :: "cb \<Rightarrow> cbset \<Rightarrow> cbset" where
  "set_add c es = (if Some c \<in> set es then es else es @ [Some c])"

definition set_delete :: "cb \<Rightarrow> cbset \<Rightarrow> bool \<times> cbset" where
  "set_delete c es =
     (Some c \<in> set es, map (\<lambda>e. if e = Some c then None else e) es)"

text \<open>The members of the registry, in insertion order.\<close>

definition members :: "cbset \<Rightarrow> cb list" where
  "members es = List.map_filter id es"

definition wf_set :: "cbset \<Rightarrow> bool" where
  "wf_set es = distinct (members es)"

section \<open>Stores, the world, and what an execution leaves behind\<close>

text \<open>
  One call of \<^verbatim>\<open>useStoreData\<close> allocates two refs: \<^verbatim>\<open>store\<close> and
  \<^verbatim>\<open>subscribers\<close>. A handle names the pair and stands for the record
  \<^verbatim>\<open>{ get, set, subscribe }\<close> closed over it.
\<close>

type_synonym handle = nat

record store_data =
  store :: obj
  subscribers :: cbset

text \<open>
  The trace is the observable history: which subscriber was invoked (with the number of
  subscriber invocations it is nested in), which value a \<^verbatim>\<open>get()\<close> returned, and
  which value an assignment to \<^verbatim>\<open>store.current\<close> installed.
\<close>

datatype event =
    Invoked nat cb
  | Read handle obj
  | Wrote handle obj

record world =
  cells :: "handle \<Rightarrow> store_data"
  next_handle :: handle
  trace :: "event list"
  depth :: nat

definition emit :: "event \<Rightarrow> world \<Rightarrow> world" where
  "emit e w = w\<lparr>trace := trace w @ [e]\<rparr>"

text \<open>
  The code a closure runs when it is called. A subscriber, and any other caller, can
  only reach a store through its three operations, from straight-line code and tests on
  what \<^verbatim>\<open>get()\<close> returns.
\<close>

datatype cmd =
    Get handle
  | Set handle obj
  | Subscribe handle cb
  | Unsubscribe handle cb
  | IfGet handle "obj \<Rightarrow> bool" "cmd list" "cmd list"

type_synonym env = "cb \<Rightarrow> cmd list"

section \<open>\<^verbatim>\<open>useStoreData\<close> and the operations of a store\<close>

text \<open>\<^verbatim>\<open>useRef(initialState)\<close> and \<^verbatim>\<open>useRef(new Set())\<close>, on the mount of a Provider.\<close>

definition useStoreData :: "obj \<Rightarrow> world \<Rightarrow> handle \<times> world" where
  "useStoreData initialState w =
     (next_handle w,
      w\<lparr>cells := (cells w)(next_handle w := \<lparr>store = initialState, subscribers = []\<rparr>),
        next_handle := Suc (next_handle w)\<rparr>)"

text \<open>\<^verbatim>\<open>const get = useCallback(() => store.current, [])\<close>\<close>

definition get :: "handle \<Rightarrow> world \<Rightarrow> obj" where
  "get h w = store (cells w h)"

text \<open>
  \<^verbatim>\<open>subscribers.current.add(callback); return () => subscribers.current.delete(callback)\<close>:
  the returned closure is named by the store and the callback it deletes.
\<close>

definition subscribe :: "handle \<Rightarrow> cb \<Rightarrow> world \<Rightarrow> (handle \<times> cb) \<times> world" where
  "subscribe h callback w =
     ((h, callback),
      w\<lparr>cells := (cells w)(h := (cells w h)\<lparr>subscribers := set_add callback (subscribers (cells w h))\<rparr>)\<rparr>)"

definition unsubscribe :: "handle \<times> cb \<Rightarrow> world \<Rightarrow> bool \<times> world" where
  "unsubscribe u w =
     (case u of (h, callback) \<Rightarrow>
        (fst (set_delete callback (subscribers (cells w h))),
         w\<lparr>cells := (cells w)(h := (cells w h)\<lparr>subscribers := snd (set_delete callback (subscribers (cells w h)))\<rparr>)\<rparr>))"

text \<open>\<^verbatim>\<open>store.current = { ...store.current, ...value }\<close>\<close>

definition assign :: "handle \<Rightarrow> obj \<Rightarrow> world \<Rightarrow> world" where
  "assign h v w = emit (Wrote h v) (w\<lparr>cells := (cells w)(h := (cells w h)\<lparr>store := v\<rparr>)\<rparr>)"

text \<open>
  \<^verbatim>\<open>set\<close> and the loop \<^verbatim>\<open>subscribers.current.forEach((subscriber) => subscriber())\<close>.
  A subscriber may call \<^verbatim>\<open>set\<close> again and the registry may grow while the loop runs,
  so neither need return: the fuel bounds the loop steps, and \<open>None\<close> is an execution
  that has not returned within it.
\<close>

function (sequential) set_value :: "nat \<Rightarrow> env \<Rightarrow> handle \<Rightarrow> obj \<Rightarrow> world \<Rightarrow> world option"
  and forEach :: "nat \<Rightarrow> env \<Rightarrow> handle \<Rightarrow> nat \<Rightarrow> world \<Rightarrow> world option"
  and exec :: "nat \<Rightarrow> env \<Rightarrow> cmd \<Rightarrow> world \<Rightarrow> world option"
  and run :: "nat \<Rightarrow> env \<Rightarrow> cmd list \<Rightarrow> world \<Rightarrow> world option"
where
  "set_value n \<rho> h v w = forEach n \<rho> h 0 (assign h (spread (get h w) v) w)"
| "forEach 0 \<rho> h i w = None"
| "forEach (Suc n) \<rho> h i w =
     (if i < length (subscribers (cells w h)) then
        (case subscribers (cells w h) ! i of
           None \<Rightarrow> forEach n \<rho> h (Suc i) w
         | Some subscriber \<Rightarrow>
             (case run n \<rho> (\<rho> subscriber)
                     (emit (Invoked (depth w) subscriber) (w\<lparr>depth := Suc (depth w)\<rparr>)) of
                None \<Rightarrow> None
              | Some w' \<Rightarrow> forEach n \<rho> h (Suc i) (w'\<lparr>depth := depth w\<rparr>)))
      else Some w)"
| "exec n \<rho> (Get h) w = Some (emit (Read h (get h w)) w)"
| "exec n \<rho> (Set h v) w = set_value n \<rho> h v w"
| "exec n \<rho> (Subscribe h c) w = Some (snd (subscribe h c w))"
| "exec n \<rho> (Unsubscribe h c) w = Some (snd (unsubscribe (h, c) w))"
| "exec n \<rho> (IfGet h p cs ds) w = run n \<rho> (if p (get h w) then cs else ds) w"
| "run n \<rho> [] w = Some w"
| "run n \<rho> (c # cs) w =
     (case exec n \<rho> c w of None \<Rightarrow> None | Some w' \<Rightarrow> run n \<rho> cs w')"
  by pat_completeness auto

termination
  by (relation "inv_image (less_than <*lex*> less_than)
        (\<lambda>x. case x of
           Inl (Inl (n, \<rho>, h, v, w)) \<Rightarrow> (n, Suc 0)
         | Inl (Inr (n, \<rho>, h, i, w)) \<Rightarrow> (n, 0)
         | Inr (Inl (n, \<rho>, c, w)) \<Rightarrow> (n, 2 + size c)
         | Inr (Inr (n, \<rho>, cs, w)) \<Rightarrow> (n, 2 + size_list size cs))")
    auto

section \<open>The Provider and \<^verbatim>\<open>useStore\<close>\<close>

text \<open>
  \<^verbatim>\<open>Provider\<close> calls \<^verbatim>\<open>useStoreData()\<close> and hands the result to its children as the
  value of \<^verbatim>\<open>StoreContext\<close>, whose default is \<^verbatim>\<open>null\<close>. What
  \<^verbatim>\<open>useContext(StoreContext)\<close> returns in a consumer is therefore \<open>None\<close> outside
  every Provider and the Provider's store inside one.
\<close>

definition Provider :: "obj \<Rightarrow> world \<Rightarrow> handle option \<times> world" where
  "Provider initialState w =
     (case useStoreData initialState w of (st, w') \<Rightarrow> (Some st, w'))"

datatype error = Error string

text \<open>
  How React renders the component that calls a hook: on the client, on the client while
  it hydrates markup that the server rendered, or in the server renderer.
\<close>

datatype renderer = Client | Hydration | Server

text \<open>
  React's \<^verbatim>\<open>useSyncExternalStore(subscribe, getSnapshot, getServerSnapshot?)\<close>. In a
  render on the client it returns what \<^verbatim>\<open>getSnapshot()\<close> returns, and it registers its
  listener only after the render has been committed. In the server renderer, and in the
  render that hydrates, it calls \<^verbatim>\<open>getServerSnapshot\<close> instead, and throws when none
  was passed. What a snapshot function throws passes through.
\<close>

definition useSyncExternalStore ::
  "renderer \<Rightarrow> 's \<Rightarrow> (world \<Rightarrow> error + 'a) \<Rightarrow> (world \<Rightarrow> error + 'a) option \<Rightarrow> world \<Rightarrow> error + 'a" where
  "useSyncExternalStore r sub getSnapshot getServerSnapshot w =
     (case r of
        Client \<Rightarrow> getSnapshot w
      | _ \<Rightarrow>
          (case getServerSnapshot of
             None \<Rightarrow> Inl (Error ''Missing getServerSnapshot, which is required for server-rendered content. Will revert to client rendering.'')
           | Some getServerSnapshot \<Rightarrow> getServerSnapshot w))"

text \<open>
  \<^verbatim>\<open>useStore(selector)\<close>: the thrown \<^verbatim>\<open>Error("Store not found!")\<close> when the context
  holds no store; otherwise the call
  \<^verbatim>\<open>useSyncExternalStore(store.subscribe, () => selector(store.get()))\<close>, which has no
  third argument, and the pair \<^verbatim>\<open>[state, store.set]\<close>, the second component being the
  \<^verbatim>\<open>set\<close> of the store found in the context.
\<close>

definition useStore ::
  "renderer \<Rightarrow> (obj \<Rightarrow> error + 'a) \<Rightarrow> handle option \<Rightarrow> world \<Rightarrow> error + ('a \<times> handle)" where
  "useStore r selector ctx w =
     (case ctx of
        None \<Rightarrow> Inl (Error ''Store not found!'')
      | Some st \<Rightarrow>
          (case useSyncExternalStore r (subscribe st) (\<lambda>w. selector (get st w)) None w of
             Inl e \<Rightarrow> Inl e
           | Inr state \<Rightarrow> Inr (state, st)))"

section \<open>Reading a trace\<close>

text \<open>The subscribers a piece of trace shows invoked, in order.\<close>

definition invoked :: "event list \<Rightarrow> cb list" where
  "invoked evs = List.map_filter (\<lambda>e. case e of Invoked d c \<Rightarrow> Some c | _ \<Rightarrow> None) evs"

text \<open>
  The subscribers invoked at nesting depth \<open>d\<close>: for the depth of the world in which
  \<^verbatim>\<open>set\<close> is called, these are the invocations made by the loop of this call itself,
  not those made by a \<^verbatim>\<open>set\<close> that a subscriber calls in turn.
\<close>

definition invoked_at :: "nat \<Rightarrow> event list \<Rightarrow> cb list" where
  "invoked_at d evs =
     List.map_filter
       (\<lambda>e. case e of Invoked d' c \<Rightarrow> if d' = d then Some c else None | _ \<Rightarrow> None) evs"

text \<open>What an execution from \<open>w\<close> to \<open>w'\<close> has added to the trace.\<close>

definition new_events :: "world \<Rightarrow> world \<Rightarrow> event list" where
  "new_events w w' = drop (length (trace w)) (trace w')"

text \<open>The value every store holds.\<close>

definition current :: "world \<Rightarrow> handle \<Rightarrow> obj" where
  "current w = (\<lambda>h. get h w)"

text \<open>
  Replaying a trace against the values the stores hold: an assignment installs its
  value, and a read must have returned the value its store holds at that point, which
  is the one the latest assignment to this store installed or, before any, the initial
  one. The result is the values held at the end, and \<open>None\<close> when some read returned
  anything else.
\<close>

fun replay :: "(handle \<Rightarrow> obj) \<Rightarrow> event list \<Rightarrow> (handle \<Rightarrow> obj) option" where
  "replay \<sigma> [] = Some \<sigma>"
| "replay \<sigma> (Wrote h v # evs) = replay (\<sigma>(h := v)) evs"
| "replay \<sigma> (Read h v # evs) = (if \<sigma> h = v then replay \<sigma> evs else None)"
| "replay \<sigma> (Invoked d c # evs) = replay \<sigma> evs"

section \<open>Classes of code\<close>

text \<open>
  A callback that only reads: its code calls \<^verbatim>\<open>get()\<close> and branches on the result,
  and calls neither \<^verbatim>\<open>set\<close> nor \<^verbatim>\<open>subscribe\<close> nor an unsubscribe function. A
  listener that re-reads the store to compute \<^verbatim>\<open>selector(store.get())\<close> again, the
  snapshot \<^verbatim>\<open>useStore\<close> hands to \<^verbatim>\<open>useSyncExternalStore\<close>, is of this kind.
\<close>

fun reads_only :: "cmd \<Rightarrow> bool" where
  "reads_only (Get h) = True"
| "reads_only (IfGet h p cs ds) = (list_all reads_only cs \<and> list_all reads_only ds)"
| "reads_only (Set h v) = False"
| "reads_only (Subscribe h c) = False"
| "reads_only (Unsubscribe h c) = False"

text \<open>Every member of a registry only reads.\<close>

definition readers :: "env \<Rightarrow> cbset \<Rightarrow> bool" where
  "readers \<rho> es = list_all (\<lambda>c. list_all reads_only (\<rho> c)) (members es)"

text \<open>Code that never calls \<^verbatim>\<open>set\<close>.\<close>

fun set_free :: "cmd \<Rightarrow> bool" where
  "set_free (Set h v) = False"
| "set_free (IfGet h p cs ds) = (list_all set_free cs \<and> list_all set_free ds)"
| "set_free (Get h) = True"
| "set_free (Subscribe h c) = True"
| "set_free (Unsubscribe h c) = True"

text \<open>
  Code that calls neither \<^verbatim>\<open>set\<close> nor \<^verbatim>\<open>subscribe\<close> nor an unsubscribe function
  of store \<open>g\<close>.
\<close>

fun spares :: "handle \<Rightarrow> cmd \<Rightarrow> bool" where
  "spares g (Get h) = True"
| "spares g (Set h v) = (h \<noteq> g)"
| "spares g (Subscribe h c) = (h \<noteq> g)"
| "spares g (Unsubscribe h c) = (h \<noteq> g)"
| "spares g (IfGet h p cs ds) = (list_all (spares g) cs \<and> list_all (spares g) ds)"

text \<open>Code that never calls the unsubscribe function of callback \<open>c\<close> on store \<open>h\<close>.\<close>

fun keeps :: "handle \<Rightarrow> cb \<Rightarrow> cmd \<Rightarrow> bool" where
  "keeps h c (Unsubscribe g d) = (g \<noteq> h \<or> d \<noteq> c)"
| "keeps h c (IfGet g p cs ds) = (list_all (keeps h c) cs \<and> list_all (keeps h c) ds)"
| "keeps h c (Get g) = True"
| "keeps h c (Set g v) = True"
| "keeps h c (Subscribe g d) = True"

text \<open>A caller that subscribes the callbacks of a list, one after the other.\<close>

definition subscribe_all :: "handle \<Rightarrow> cb list \<Rightarrow> world \<Rightarrow> world" where
  "subscribe_all h cbs w = fold (\<lambda>c w. snd (subscribe h c w)) cbs w"




section \<open>Relations between the world before and the world after\<close>

text \<open>An event that reports a \<^verbatim>\<open>get()\<close> of the value the world holds.\<close>

definition is_read_of :: "world \<Rightarrow> event \<Rightarrow> bool" where
  "is_read_of w e = (case e of Read h v \<Rightarrow> v = get h w | _ \<Rightarrow> False)"

text \<open>
  An event of a notification whose subscribers only read: an invocation by the loop
  itself, or a read of the value the world holds.
\<close>

definition notify_event :: "world \<Rightarrow> event \<Rightarrow> bool" where
  "notify_event w e =
     (case e of Invoked d c \<Rightarrow> d = depth w | Read h v \<Rightarrow> v = get h w | Wrote h v \<Rightarrow> False)"

text \<open>
  From \<open>w\<close> to \<open>w'\<close> the trace has grown by reads of the current values only, and
  every store holds the value it held.
\<close>

definition only_read :: "world \<Rightarrow> world \<Rightarrow> bool" where
  "only_read w w' =
     ((\<exists>evs. trace w' = trace w @ evs \<and> list_all (is_read_of w) evs) \<and>
      (\<forall>h. get h w' = get h w))"

text \<open>
  The trace from \<open>w\<close> to \<open>w'\<close> replays from the values of \<open>w\<close> to the values of
  \<open>w'\<close>.
\<close>

definition faithful :: "world \<Rightarrow> world \<Rightarrow> bool" where
  "faithful w w' =
     (\<exists>evs. trace w' = trace w @ evs \<and> replay (current w) evs = Some (current w'))"

text \<open>An event that is no invocation at a depth less than \<open>d\<close>.\<close>

definition below :: "nat \<Rightarrow> event \<Rightarrow> bool" where
  "below d e = (case e of Invoked d' c \<Rightarrow> d \<le> d' | _ \<Rightarrow> True)"

text \<open>
  From \<open>es\<close> to \<open>es'\<close> the entries of callback \<open>c\<close> are the same, at the same
  places, and \<open>es'\<close> may be longer.
\<close>

definition stable :: "cb \<Rightarrow> cbset \<Rightarrow> cbset \<Rightarrow> bool" where
  "stable c es es' =
     (\<exists>k. map (\<lambda>e. e = Some c) es' = map (\<lambda>e. e = Some c) es @ replicate k False)"

text \<open>
  From \<open>w\<close> to \<open>w'\<close>: the same nesting depth, the entries of \<open>c\<close> in the registry of
  \<open>h\<close> where they were, and a trace grown by events that are not invocations at a
  lesser depth.
\<close>

definition undisturbed :: "handle \<Rightarrow> cb \<Rightarrow> world \<Rightarrow> world \<Rightarrow> bool" where
  "undisturbed h c w w' =
     (depth w' = depth w \<and>
      stable c (subscribers (cells w h)) (subscribers (cells w' h)) \<and>
      (\<exists>evs. trace w' = trace w @ evs \<and> list_all (below (depth w)) evs))"




section \<open>Scenarios\<close>

text \<open>The world before any Provider has been mounted.\<close>

definition fresh :: world where
  "fresh = \<lparr>cells = (\<lambda>h. \<lparr>store = [], subscribers = []\<rparr>), next_handle = 0, trace = [], depth = 0\<rparr>"

text \<open>A store holding \<^verbatim>\<open>{a: 1, b: 2}\<close>, with one subscriber.\<close>

definition ab_world :: world where
  "ab_world = snd (subscribe 0 7 (snd (useStoreData [(''a'', Num 1), (''b'', Num 2)] fresh)))"

text \<open>Callbacks that read store 0 and do nothing else.\<close>

definition reader :: env where
  "reader = (\<lambda>c. [Get 0])"

text \<open>The same store with three subscribers, registered in the order 1, 2, 3.\<close>

definition three_world :: world where
  "three_world =
     snd (subscribe 0 3 (snd (subscribe 0 2 (snd (subscribe 0 1
       (snd (useStoreData [(''a'', Num 1), (''b'', Num 2)] fresh)))))))"

text \<open>A caller that subscribes, reads and unsubscribes, and never calls \<^verbatim>\<open>set\<close>.\<close>

definition sub_prog :: "cmd list" where
  "sub_prog =
     [Subscribe 0 1, Get 0, Subscribe 0 2, Unsubscribe 0 1,
      IfGet 0 (\<lambda>v. map_of v ''a'' = Some (Num 1)) [Subscribe 0 3] [Subscribe 0 4]]"

text \<open>Callbacks that would call \<^verbatim>\<open>set\<close> if they were invoked.\<close>

definition setter :: env where
  "setter = (\<lambda>c. [Set 0 [(''a'', Num 9)]])"

text \<open>
  The scenario of a counter: a store holding \<^verbatim>\<open>{count: 0}\<close>; then \<^verbatim>\<open>cb1\<close>
  subscribed and \<^verbatim>\<open>set({count: 1})\<close> called; then \<^verbatim>\<open>cb1\<close> unsubscribed.
\<close>

definition count_world :: world where
  "count_world = snd (useStoreData [(''count'', Num 0)] fresh)"

definition counted :: world where
  "counted = the (set_value 2 reader 0 [(''count'', Num 1)] (snd (subscribe 0 1 count_world)))"

definition unsubscribed :: world where
  "unsubscribed = snd (unsubscribe (0, 1) counted)"

text \<open>
  Callbacks that call back into the store: callback 1 reads and, unless \<^verbatim>\<open>b\<close> is 4,
  calls \<^verbatim>\<open>set({b: 4})\<close>; callback 2 unsubscribes callback 1 and subscribes callback
  4; callback 3 reads. \<open>normalised\<close> is the world after \<^verbatim>\<open>set({b: 3})\<close> on the
  store with the subscribers 1, 2, 3.
\<close>

definition normaliser :: env where
  "normaliser =
     (\<lambda>c. if c = 1 then
              [Get 0, IfGet 0 (\<lambda>v. map_of v ''b'' \<noteq> Some (Num 4)) [Set 0 [(''b'', Num 4)]] []]
           else if c = 2 then [Unsubscribe 0 1, Subscribe 0 4]
           else if c = 3 then [Get 0]
           else [])"

definition normalised :: world where
  "normalised = the (set_value 8 normaliser 0 [(''b'', Num 3)] three_world)"




text \<open>
  Two stores made from the same initial value \<^verbatim>\<open>{count: 0}\<close>, callback 1 subscribed
  to the first and callback 2 to the second. Callback 1 calls \<^verbatim>\<open>set({count: 5})\<close> on
  the first store unless \<^verbatim>\<open>count\<close> is 5; the others read the second store.
  \<open>capped\<close> is the world after \<^verbatim>\<open>set({count: 9})\<close> on the first store.
\<close>

definition two_stores :: world where
  "two_stores =
     snd (subscribe 1 2 (snd (subscribe 0 1
       (snd (useStoreData [(''count'', Num 0)] (snd (useStoreData [(''count'', Num 0)] fresh)))))))"

definition capper :: env where
  "capper =
     (\<lambda>c. if c = 1 then
              [IfGet 0 (\<lambda>v. map_of v ''count'' \<noteq> Some (Num 5)) [Set 0 [(''count'', Num 5)]] []]
           else [Get 1])"

definition capped :: world where
  "capped = the (set_value 4 capper 0 [(''count'', Num 9)] two_stores)"

text \<open>
  Callback 1 calls the unsubscribe function of callback 2; the others read.
\<close>

definition remover :: env where
  "remover = (\<lambda>c. if c = 1 then [Unsubscribe 0 2] else [Get 0])"

text \<open>
  The counter store with two subscribers, 1 and 2, and the world after
  \<^verbatim>\<open>set({count: 1})\<close> on it when callback 1 calls the unsubscribe function of
  callback 2.
\<close>

definition pair_world :: world where
  "pair_world = snd (subscribe 0 2 (snd (subscribe 0 1 count_world)))"

definition unnotified :: world where
  "unnotified = the (set_value 3 remover 0 [(''count'', Num 1)] pair_world)"



section \<open>Object spread and the registry operations\<close>

text \<open>
  What a spread holds under a name: the source's value where the source has the name,
  the target's otherwise. A well-formed object spread into the empty object is itself.
\<close>

lemma map_of_copy_props:
  "distinct (map fst src) \<Longrightarrow>
   map_of (copy_props target src) k =
     (case map_of src k of Some v \<Rightarrow> Some v | None \<Rightarrow> map_of target k)"
proof (induction src arbitrary: target)
  case Nil
  then show ?case by (simp add: copy_props_def)
next
  case (Cons kv src)
  obtain k1 v1 where kv: "kv = (k1, v1)" by (cases kv)
  from Cons.prems kv have d: "distinct (map fst src)" and nk: "k1 \<notin> fst ` set src"
    by auto
  have step: "copy_props target (kv # src) = copy_props (AList.update k1 v1 target) src"
    by (simp add: copy_props_def kv)
  from nk have none: "map_of src k1 = None"
    by (simp add: map_of_eq_None_iff)
  show ?case
    unfolding step Cons.IH [OF d]
    by (cases "k = k1") (simp_all add: kv none update_conv' split: option.splits)
qed

lemma copy_props_append:
  "distinct (map fst (target @ src)) \<Longrightarrow> copy_props target src = target @ src"
proof (induction src arbitrary: target)
  case Nil
  then show ?case by (simp add: copy_props_def)
next
  case (Cons kv src)
  obtain k1 v1 where kv: "kv = (k1, v1)" by (cases kv)
  from Cons.prems kv have fresh: "k1 \<notin> fst ` set target" by auto
  have upd: "AList.update k1 v1 target = target @ [(k1, v1)]"
    using fresh by (induction target) auto
  have "copy_props target (kv # src) = copy_props (target @ [(k1, v1)]) src"
    by (simp add: copy_props_def kv upd)
  also have "\<dots> = (target @ [(k1, v1)]) @ src"
    using Cons.prems kv by (intro Cons.IH) simp
  finally show ?case by (simp add: kv)
qed

lemma copy_props_empty: "wf_obj a \<Longrightarrow> copy_props [] a = a"
  using copy_props_append [of "[]" a] by (simp add: wf_obj_def)

lemma distinct_copy_props:
  "distinct (map fst target) \<Longrightarrow> distinct (map fst (copy_props target src))"
  unfolding copy_props_def
  by (induction src arbitrary: target) (auto simp: distinct_update)

lemma wf_obj_spread: "wf_obj (spread a b)"
  by (simp add: spread_def wf_obj_def distinct_copy_props)

lemma map_of_spread:
  "wf_obj a \<Longrightarrow> wf_obj b \<Longrightarrow>
   map_of (spread a b) k = (case map_of b k of Some v \<Rightarrow> Some v | None \<Rightarrow> map_of a k)"
  by (simp add: spread_def copy_props_empty map_of_copy_props wf_obj_def)


text \<open>
  The members of the registry after \<^verbatim>\<open>add\<close> and \<^verbatim>\<open>delete\<close>; both keep it free of
  duplicates.
\<close>

lemma members_append: "members (es @ fs) = members es @ members fs"
  by (simp add: members_def map_filter_def)

lemma members_Cons [simp]:
  "members [] = []"
  "members (None # es) = members es"
  "members (Some c # es) = c # members es"
  by (simp_all add: members_def map_filter_simps)

lemma set_members: "c \<in> set (members es) \<longleftrightarrow> Some c \<in> set es"
  by (induction es) (auto split: option.splits simp: members_def map_filter_simps)

lemma members_set_add:
  "members (set_add c es) = (if c \<in> set (members es) then members es else members es @ [c])"
  by (simp add: set_add_def set_members members_append)

lemma members_set_delete:
  "members (snd (set_delete c es)) = removeAll c (members es)"
proof (induction es)
  case Nil
  then show ?case by (simp add: set_delete_def)
next
  case (Cons e es)
  then show ?case by (cases e) (auto simp: set_delete_def)
qed

lemma wf_set_add: "wf_set es \<Longrightarrow> wf_set (set_add c es)"
  by (simp add: wf_set_def members_set_add)

lemma wf_set_delete: "wf_set es \<Longrightarrow> wf_set (snd (set_delete c es))"
  by (simp add: wf_set_def members_set_delete distinct_removeAll)

lemma count_list_distinct:
  "distinct xs \<Longrightarrow> count_list xs x = (if x \<in> set xs then 1 else 0)"
  by (induction xs) auto

lemma new_events_append: "trace w' = trace w @ evs \<Longrightarrow> new_events w w' = evs"
  by (simp add: new_events_def)

text \<open>
  An unsubscribe function called when its callback is not registered changes nothing.
\<close>

lemma unsubscribe_absent:
  "cb \<notin> set (members (subscribers (cells w h))) \<Longrightarrow> unsubscribe (h, cb) w = (False, w)"
proof -
  assume "cb \<notin> set (members (subscribers (cells w h)))"
  then have no: "Some cb \<notin> set (subscribers (cells w h))"
    by (simp add: set_members)
  then have "map (\<lambda>e. if e = Some cb then None else e) (subscribers (cells w h)) =
      subscribers (cells w h)"
    by (intro map_idI) auto
  with no show ?thesis
    by (simp add: unsubscribe_def set_delete_def)
qed

lemma members_unsubscribe:
  "members (subscribers (cells (snd (unsubscribe (h, cb) w)) h)) =
     removeAll cb (members (subscribers (cells w h)))"
  by (simp add: unsubscribe_def members_set_delete)

lemma subscribe_again:
  "cb \<in> set (members (subscribers (cells w h))) \<Longrightarrow> snd (subscribe h cb w) = w"
  by (simp add: subscribe_def set_add_def set_members)

lemma readers_set_delete: "readers \<rho> es \<Longrightarrow> readers \<rho> (snd (set_delete c es))"
  by (auto simp: readers_def members_set_delete list_all_iff)

text \<open>
  Subscribing a list of callbacks leaves the registry with its earlier members
  followed by the new ones, each at the place of its first subscription.
\<close>

lemma members_subscribe_all:
  assumes "wf_set (subscribers (cells w h))"
  shows "members (subscribers (cells (subscribe_all h cbs w) h)) =
           rev (remdups (rev (members (subscribers (cells w h)) @ cbs)))"
proof (induction cbs rule: rev_induct)
  case Nil
  from assms show ?case
    by (simp add: subscribe_all_def wf_set_def distinct_remdups_id)
next
  case (snoc c cbs)
  let ?w = "subscribe_all h cbs w"
  let ?ms = "members (subscribers (cells w h))"
  have step: "subscribe_all h (cbs @ [c]) w = snd (subscribe h c ?w)"
    by (simp add: subscribe_all_def)
  have "set (members (subscribers (cells ?w h))) = set (?ms @ cbs)"
    unfolding snoc.IH by auto
  then have mem: "c \<in> set (members (subscribers (cells ?w h))) \<longleftrightarrow> c \<in> set (?ms @ cbs)"
    by simp
  have "members (subscribers (cells (snd (subscribe h c ?w)) h)) =
      (if c \<in> set (?ms @ cbs) then members (subscribers (cells ?w h))
       else members (subscribers (cells ?w h)) @ [c])"
    unfolding mem [symmetric] by (simp add: subscribe_def members_set_add)
  then show ?case
    unfolding step snoc.IH by simp
qed

section \<open>Notifications whose subscribers only read\<close>

text \<open>
  A callback that only reads returns, whatever the fuel, in a world that differs from
  the one it was called in by the reads it has added to the trace.
\<close>

lemma is_read_of_cong: "cells w' = cells w \<Longrightarrow> is_read_of w' = is_read_of w"
  by (simp add: is_read_of_def get_def fun_eq_iff split: event.splits)

lemma run_reads_only_aux:
  assumes ex: "\<And>c w. c \<in> set cs \<Longrightarrow> reads_only c \<Longrightarrow>
            \<exists>evs. exec n \<rho> c w = Some (w\<lparr>trace := trace w @ evs\<rparr>) \<and> list_all (is_read_of w) evs"
    and ro: "list_all reads_only cs"
  shows "\<exists>evs. run n \<rho> cs w = Some (w\<lparr>trace := trace w @ evs\<rparr>) \<and> list_all (is_read_of w) evs"
  using ex ro
proof (induction cs arbitrary: w)
  case Nil
  have "run n \<rho> [] w = Some (w\<lparr>trace := trace w @ []\<rparr>)" by simp
  then show ?case by (intro exI [of _ "[]"]) simp
next
  case (Cons c cs)
  have rc: "reads_only c" and rcs: "list_all reads_only cs"
    using Cons.prems(2) by simp_all
  from Cons.prems(1) [of c w] rc obtain e1 where
    e1: "exec n \<rho> c w = Some (w\<lparr>trace := trace w @ e1\<rparr>)" "list_all (is_read_of w) e1"
    by auto
  let ?w1 = "w\<lparr>trace := trace w @ e1\<rparr>"
  have "\<exists>evs. run n \<rho> cs ?w1 = Some (?w1\<lparr>trace := trace ?w1 @ evs\<rparr>) \<and>
          list_all (is_read_of ?w1) evs"
  proof (rule Cons.IH)
    fix c' w'
    assume "c' \<in> set cs" "reads_only c'"
    then show "\<exists>evs. exec n \<rho> c' w' = Some (w'\<lparr>trace := trace w' @ evs\<rparr>) \<and>
                 list_all (is_read_of w') evs"
      using Cons.prems(1) [of c' w'] by simp
  next
    show "list_all reads_only cs" by fact
  qed
  then obtain e2 where
    e2: "run n \<rho> cs ?w1 = Some (?w1\<lparr>trace := trace ?w1 @ e2\<rparr>)" "list_all (is_read_of ?w1) e2"
    by auto
  have same: "is_read_of ?w1 = is_read_of w"
    by (rule is_read_of_cong) simp
  have "run n \<rho> (c # cs) w = Some (w\<lparr>trace := trace w @ (e1 @ e2)\<rparr>)"
    using e1 e2 by simp
  moreover have "list_all (is_read_of w) (e1 @ e2)"
    using e1 e2 same by simp
  ultimately show ?case by blast
qed

lemma exec_reads_only:
  "reads_only c \<Longrightarrow>
     \<exists>evs. exec n \<rho> c w = Some (w\<lparr>trace := trace w @ evs\<rparr>) \<and> list_all (is_read_of w) evs"
proof (induction c arbitrary: w)
  case (Get h)
  have "exec n \<rho> (Get h) w = Some (w\<lparr>trace := trace w @ [Read h (get h w)]\<rparr>)"
    by (simp add: emit_def)
  moreover have "list_all (is_read_of w) [Read h (get h w)]"
    by (simp add: is_read_of_def)
  ultimately show ?case by blast
next
  case (IfGet h p cs ds)
  show ?case
  proof (cases "p (get h w)")
    case True
    have "\<exists>evs. run n \<rho> cs w = Some (w\<lparr>trace := trace w @ evs\<rparr>) \<and> list_all (is_read_of w) evs"
      using IfGet.IH(1) IfGet.prems by (intro run_reads_only_aux) auto
    with True show ?thesis by simp
  next
    case False
    have "\<exists>evs. run n \<rho> ds w = Some (w\<lparr>trace := trace w @ evs\<rparr>) \<and> list_all (is_read_of w) evs"
      using IfGet.IH(2) IfGet.prems by (intro run_reads_only_aux) auto
    with False show ?thesis by simp
  qed
qed simp_all

lemma run_reads_only:
  "list_all reads_only cs \<Longrightarrow>
     \<exists>evs. run n \<rho> cs w = Some (w\<lparr>trace := trace w @ evs\<rparr>) \<and> list_all (is_read_of w) evs"
  by (rule run_reads_only_aux) (auto intro: exec_reads_only)

lemma invoked_simps [simp]:
  "invoked [] = []"
  "invoked (Invoked d c # evs) = c # invoked evs"
  "invoked (Read h v # evs) = invoked evs"
  "invoked (Wrote h v # evs) = invoked evs"
  "invoked (evs @ evs') = invoked evs @ invoked evs'"
  by (simp_all add: invoked_def map_filter_def)

lemma invoked_reads: "list_all (is_read_of w) evs \<Longrightarrow> invoked evs = []"
  by (induction evs) (auto simp: is_read_of_def split: event.splits)

lemma notify_event_reads: "list_all (is_read_of w) evs \<Longrightarrow> list_all (notify_event w) evs"
  by (induction evs) (auto simp: is_read_of_def notify_event_def split: event.splits)

lemma members_drop:
  "i < length es \<Longrightarrow>
   members (drop i es) = (case es ! i of None \<Rightarrow> [] | Some c \<Rightarrow> [c]) @ members (drop (Suc i) es)"
  by (simp add: Cons_nth_drop_Suc [symmetric] split: option.splits)

text \<open>
  The loop over a registry whose remaining members only read: with fuel beyond the
  number of entries left it returns, the stores and the registry as they were, having
  invoked the members from index \<open>i\<close> on, one after the other.
\<close>

lemma forEach_reads_only:
  assumes "\<forall>c \<in> set (members (drop i (subscribers (cells w h)))). list_all reads_only (\<rho> c)"
    and "length (subscribers (cells w h)) - i < n"
  shows "\<exists>evs. forEach n \<rho> h i w = Some (w\<lparr>trace := trace w @ evs\<rparr>) \<and>
           invoked evs = members (drop i (subscribers (cells w h))) \<and>
           list_all (notify_event w) evs"
  using assms
proof (induction n arbitrary: i w)
  case 0
  then show ?case by simp
next
  case (Suc n)
  let ?es = "subscribers (cells w h)"
  show ?case
  proof (cases "i < length ?es")
    case False
    then have "forEach (Suc n) \<rho> h i w = Some (w\<lparr>trace := trace w @ []\<rparr>)" by simp
    with False show ?thesis by (intro exI [of _ "[]"]) simp
  next
    case True
    note inb = this
    show ?thesis
    proof (cases "?es ! i")
      case None
      have "\<exists>evs. forEach n \<rho> h (Suc i) w = Some (w\<lparr>trace := trace w @ evs\<rparr>) \<and>
              invoked evs = members (drop (Suc i) ?es) \<and> list_all (notify_event w) evs"
        using Suc.prems inb None by (intro Suc.IH) (auto simp: members_drop)
      then show ?thesis using inb None by (simp add: members_drop)
    next
      case (Some c)
      let ?w1 = "emit (Invoked (depth w) c) (w\<lparr>depth := Suc (depth w)\<rparr>)"
      have "list_all reads_only (\<rho> c)"
        using Suc.prems(1) inb Some by (simp add: members_drop)
      then obtain e1 where
        e1: "run n \<rho> (\<rho> c) ?w1 = Some (?w1\<lparr>trace := trace ?w1 @ e1\<rparr>)"
          "list_all (is_read_of ?w1) e1"
        using run_reads_only by blast
      let ?w2 = "w\<lparr>trace := trace w @ Invoked (depth w) c # e1\<rparr>"
      have w2: "(?w1\<lparr>trace := trace ?w1 @ e1\<rparr>)\<lparr>depth := depth w\<rparr> = ?w2"
        by (simp add: emit_def)
      have "\<exists>evs. forEach n \<rho> h (Suc i) ?w2 = Some (?w2\<lparr>trace := trace ?w2 @ evs\<rparr>) \<and>
              invoked evs = members (drop (Suc i) (subscribers (cells ?w2 h))) \<and>
              list_all (notify_event ?w2) evs"
        using Suc.prems inb Some by (intro Suc.IH) (auto simp: members_drop)
      then obtain e2 where
        e2: "forEach n \<rho> h (Suc i) ?w2 = Some (?w2\<lparr>trace := trace ?w2 @ e2\<rparr>)"
          "invoked e2 = members (drop (Suc i) ?es)" "list_all (notify_event ?w2) e2"
        by auto
      have r1: "is_read_of ?w1 = is_read_of w"
        by (rule is_read_of_cong) (simp add: emit_def)
      have n2: "notify_event ?w2 = notify_event w"
        by (simp add: notify_event_def get_def fun_eq_iff split: event.splits)
      have "forEach (Suc n) \<rho> h i w = Some (w\<lparr>trace := trace w @ (Invoked (depth w) c # e1 @ e2)\<rparr>)"
        using inb Some e1(1) e2(1) w2 by simp
      moreover have "invoked (Invoked (depth w) c # e1 @ e2) = members (drop i ?es)"
        using inb Some e1(2) e2(2) by (simp add: members_drop invoked_reads)
      moreover have "list_all (notify_event w) (Invoked (depth w) c # e1 @ e2)"
        using e1(2) e2(3) r1 n2 by (simp add: notify_event_reads) (simp add: notify_event_def)
      ultimately show ?thesis by blast
    qed
  qed
qed

text \<open>
  So \<^verbatim>\<open>set\<close> on a store whose subscribers only read returns, with the merged value
  assigned and nothing else changed, having invoked the members of the registry in
  their order.
\<close>

lemma set_value_readers:
  assumes rd: "readers \<rho> (subscribers (cells w h))"
    and fuel: "length (subscribers (cells w h)) < n"
  shows "\<exists>evs. set_value n \<rho> h v w =
           Some (w\<lparr>cells := (cells w)(h := (cells w h)\<lparr>store := spread (get h w) v\<rparr>),
                   trace := trace w @ Wrote h (spread (get h w) v) # evs\<rparr>) \<and>
           invoked evs = members (subscribers (cells w h)) \<and>
           list_all (notify_event (assign h (spread (get h w) v) w)) evs"
proof -
  let ?w1 = "assign h (spread (get h w) v) w"
  have es: "subscribers (cells ?w1 h) = subscribers (cells w h)"
    by (simp add: assign_def emit_def)
  have pre: "\<forall>c \<in> set (members (drop 0 (subscribers (cells ?w1 h)))). list_all reads_only (\<rho> c)"
    using rd by (simp add: readers_def list_all_iff es)
  have fuel': "length (subscribers (cells ?w1 h)) - 0 < n"
    using fuel by (simp add: es)
  from forEach_reads_only [OF pre fuel'] obtain evs where
    "forEach n \<rho> h 0 ?w1 = Some (?w1\<lparr>trace := trace ?w1 @ evs\<rparr>)"
    "invoked evs = members (subscribers (cells w h))"
    "list_all (notify_event ?w1) evs"
    unfolding es by auto
  moreover have "?w1\<lparr>trace := trace ?w1 @ evs\<rparr> =
      w\<lparr>cells := (cells w)(h := (cells w h)\<lparr>store := spread (get h w) v\<rparr>),
        trace := trace w @ Wrote h (spread (get h w) v) # evs\<rparr>"
    by (simp add: assign_def emit_def)
  ultimately show ?thesis by auto
qed

section \<open>Code that never calls \<^verbatim>\<open>set\<close>\<close>

text \<open>
  Code that never calls \<^verbatim>\<open>set\<close> returns, whatever the fuel and whatever the
  callbacks are: it invokes nothing and assigns nothing.
\<close>

lemma is_read_of_get: "(\<forall>h. get h w' = get h w) \<Longrightarrow> is_read_of w' = is_read_of w"
  by (simp add: is_read_of_def fun_eq_iff split: event.splits)

lemma only_read_refl: "only_read w w"
  by (simp add: only_read_def)

lemma only_read_trans:
  assumes "only_read w w1" and "only_read w1 w2"
  shows "only_read w w2"
proof -
  from assms(1) obtain e1 where
    e1: "trace w1 = trace w @ e1" "list_all (is_read_of w) e1" and g1: "\<forall>h. get h w1 = get h w"
    by (auto simp: only_read_def)
  from assms(2) obtain e2 where
    e2: "trace w2 = trace w1 @ e2" "list_all (is_read_of w1) e2" and g2: "\<forall>h. get h w2 = get h w1"
    by (auto simp: only_read_def)
  have "is_read_of w1 = is_read_of w"
    using g1 by (rule is_read_of_get)
  with e1 e2 have "trace w2 = trace w @ (e1 @ e2)" "list_all (is_read_of w) (e1 @ e2)"
    by simp_all
  with g1 g2 show ?thesis
    unfolding only_read_def by (intro conjI exI [of _ "e1 @ e2"]) simp_all
qed

lemma only_read_subscribe: "only_read w (snd (subscribe h c w))"
  by (simp add: only_read_def subscribe_def get_def)

lemma only_read_unsubscribe: "only_read w (snd (unsubscribe u w))"
  by (simp add: only_read_def unsubscribe_def get_def split: prod.splits)

lemma only_read_Get: "only_read w (emit (Read h (get h w)) w)"
  by (simp add: only_read_def emit_def get_def is_read_of_def)

lemma run_set_free_aux:
  assumes ex: "\<And>c w. c \<in> set cs \<Longrightarrow> set_free c \<Longrightarrow>
            \<exists>w'. exec n \<rho> c w = Some w' \<and> only_read w w'"
    and sf: "list_all set_free cs"
  shows "\<exists>w'. run n \<rho> cs w = Some w' \<and> only_read w w'"
  using ex sf
proof (induction cs arbitrary: w)
  case Nil
  then show ?case by (simp add: only_read_refl)
next
  case (Cons c cs)
  have sc: "set_free c" and scs: "list_all set_free cs"
    using Cons.prems(2) by simp_all
  from Cons.prems(1) [of c w] sc obtain w1 where
    w1: "exec n \<rho> c w = Some w1" "only_read w w1"
    by auto
  have "\<exists>w'. run n \<rho> cs w1 = Some w' \<and> only_read w1 w'"
  proof (rule Cons.IH)
    fix c' w'
    assume "c' \<in> set cs" "set_free c'"
    then show "\<exists>w''. exec n \<rho> c' w' = Some w'' \<and> only_read w' w''"
      using Cons.prems(1) [of c' w'] by simp
  next
    show "list_all set_free cs" by fact
  qed
  then obtain w2 where "run n \<rho> cs w1 = Some w2" "only_read w1 w2"
    by auto
  with w1 show ?case
    by (auto intro: only_read_trans)
qed

lemma exec_set_free:
  "set_free c \<Longrightarrow> \<exists>w'. exec n \<rho> c w = Some w' \<and> only_read w w'"
proof (induction c arbitrary: w)
  case (IfGet h p cs ds)
  show ?case
  proof (cases "p (get h w)")
    case True
    have "\<exists>w'. run n \<rho> cs w = Some w' \<and> only_read w w'"
      using IfGet.IH(1) IfGet.prems by (intro run_set_free_aux) auto
    with True show ?thesis by simp
  next
    case False
    have "\<exists>w'. run n \<rho> ds w = Some w' \<and> only_read w w'"
      using IfGet.IH(2) IfGet.prems by (intro run_set_free_aux) auto
    with False show ?thesis by simp
  qed
qed (simp_all add: only_read_Get only_read_subscribe only_read_unsubscribe)

lemma run_set_free:
  "list_all set_free cs \<Longrightarrow> \<exists>w'. run n \<rho> cs w = Some w' \<and> only_read w w'"
  by (rule run_set_free_aux) (auto intro: exec_set_free)

lemma only_read_invoked: "only_read w w' \<Longrightarrow> invoked (new_events w w') = []"
  unfolding only_read_def
  by (auto simp: new_events_append invoked_reads)

section \<open>What every execution preserves\<close>

text \<open>
  The fuel only bounds the search for the result: an execution that returns within
  \<open>n\<close> steps returns the same world within any larger bound.
\<close>

lemma more_fuel:
  "set_value n \<rho> h v w = Some w' \<Longrightarrow> n \<le> m \<Longrightarrow> set_value m \<rho> h v w = Some w'"
  "forEach n \<rho> h i w = Some w' \<Longrightarrow> n \<le> m \<Longrightarrow> forEach m \<rho> h i w = Some w'"
  "exec n \<rho> c w = Some w' \<Longrightarrow> n \<le> m \<Longrightarrow> exec m \<rho> c w = Some w'"
  "run n \<rho> cs w = Some w' \<Longrightarrow> n \<le> m \<Longrightarrow> run m \<rho> cs w = Some w'"
proof (induction n \<rho> h v w and n \<rho> h i w and n \<rho> c w and n \<rho> cs w
    arbitrary: w' m and w' m and w' m and w' m
    rule: set_value_forEach_exec_run.induct)
  case (1 n \<rho> h v w)
  from "1.prems"(1) have "forEach n \<rho> h 0 (assign h (spread (get h w) v) w) = Some w'" by simp
  from "1.IH" [OF this "1.prems"(2)]
  have "forEach m \<rho> h 0 (assign h (spread (get h w) v) w) = Some w'" .
  then show ?case by (simp only: set_value.simps)
next
  case (2 \<rho> h i w)
  then show ?case by simp
next
  case (3 n \<rho> h i w)
  from "3.prems"(2) obtain k where m: "m = Suc k" and nk: "n \<le> k"
    by (cases m) auto
  show ?case
  proof (cases "i < length (subscribers (cells w h))")
    case False
    with "3.prems"(1) have "w' = w" by simp
    with False show ?thesis
      unfolding m by simp
  next
    case inb: True
    show ?thesis
    proof (cases "subscribers (cells w h) ! i")
      case None
      with inb "3.prems"(1) have "forEach n \<rho> h (Suc i) w = Some w'" by simp
      from "3.IH"(1) [OF inb None this nk]
      have "forEach k \<rho> h (Suc i) w = Some w'" .
      then show ?thesis
        unfolding m using inb None by simp
    next
      case (Some c)
      let ?w1 = "emit (Invoked (depth w) c) (w\<lparr>depth := Suc (depth w)\<rparr>)"
      from "3.prems"(1) inb Some obtain w1 where
        w1: "run n \<rho> (\<rho> c) ?w1 = Some w1"
          "forEach n \<rho> h (Suc i) (w1\<lparr>depth := depth w\<rparr>) = Some w'"
        by (auto split: option.splits)
      from "3.IH"(2) [OF inb Some w1(1) nk]
      have a: "run k \<rho> (\<rho> c) ?w1 = Some w1" .
      from "3.IH"(3) [OF inb Some w1(1) w1(2) nk]
      have b: "forEach k \<rho> h (Suc i) (w1\<lparr>depth := depth w\<rparr>) = Some w'" .
      have "forEach (Suc k) \<rho> h i w = Some w'"
        by (simp only: forEach.simps inb Some a b if_True option.case)
      then show ?thesis
        unfolding m .
    qed
  qed
next
  case (4 n \<rho> h w)
  then show ?case by simp
next
  case (5 n \<rho> h v w)
  from "5.prems"(1) have "set_value n \<rho> h v w = Some w'" by simp
  from "5.IH" [OF this "5.prems"(2)] show ?case by simp
next
  case (6 n \<rho> h c w)
  then show ?case by simp
next
  case (7 n \<rho> h c w)
  then show ?case by simp
next
  case (8 n \<rho> h p cs ds w)
  from "8.prems"(1) have "run n \<rho> (if p (get h w) then cs else ds) w = Some w'" by simp
  from "8.IH" [OF this "8.prems"(2)] show ?case by simp
next
  case (9 n \<rho> w)
  then show ?case by simp
next
  case (10 n \<rho> c cs w)
  from "10.prems"(1) obtain w1 where
    w1: "exec n \<rho> c w = Some w1" "run n \<rho> cs w1 = Some w'"
    by (auto split: option.splits)
  from "10.IH"(1) [OF w1(1) "10.prems"(2)] "10.IH"(2) [OF w1(1) w1(2) "10.prems"(2)]
  show ?case by simp
qed

lemma fuel_irrelevant:
  assumes "set_value n \<rho> h v w = Some w1" and "set_value m \<rho> h v w = Some w2"
  shows "w1 = w2"
proof -
  from more_fuel(1) [OF assms(1), of "max n m"] more_fuel(1) [OF assms(2), of "max n m"]
  show ?thesis by simp
qed

text \<open>
  No execution puts a duplicate into a registry.
\<close>

lemma wf_set_preserved:
  "set_value n \<rho> h v w = Some w' \<Longrightarrow> wf_set (subscribers (cells w g)) \<Longrightarrow>
     wf_set (subscribers (cells w' g))"
  "forEach n \<rho> h i w = Some w' \<Longrightarrow> wf_set (subscribers (cells w g)) \<Longrightarrow>
     wf_set (subscribers (cells w' g))"
  "exec n \<rho> c w = Some w' \<Longrightarrow> wf_set (subscribers (cells w g)) \<Longrightarrow>
     wf_set (subscribers (cells w' g))"
  "run n \<rho> cs w = Some w' \<Longrightarrow> wf_set (subscribers (cells w g)) \<Longrightarrow>
     wf_set (subscribers (cells w' g))"
proof (induction n \<rho> h v w and n \<rho> h i w and n \<rho> c w and n \<rho> cs w
    arbitrary: w' and w' and w' and w'
    rule: set_value_forEach_exec_run.induct)
  case (1 n \<rho> h v w)
  let ?w1 = "assign h (spread (get h w) v) w"
  from "1.prems"(1) have "forEach n \<rho> h 0 ?w1 = Some w'" by simp
  moreover have "wf_set (subscribers (cells ?w1 g))"
    using "1.prems"(2) by (auto simp: assign_def emit_def)
  ultimately show ?case by (rule "1.IH")
next
  case (2 \<rho> h i w)
  then show ?case by simp
next
  case (3 n \<rho> h i w)
  show ?case
  proof (cases "i < length (subscribers (cells w h))")
    case False
    with "3.prems" show ?thesis by simp
  next
    case inb: True
    show ?thesis
    proof (cases "subscribers (cells w h) ! i")
      case None
      with inb "3.prems" "3.IH"(1) show ?thesis by simp
    next
      case (Some c)
      let ?w1 = "emit (Invoked (depth w) c) (w\<lparr>depth := Suc (depth w)\<rparr>)"
      from "3.prems"(1) inb Some obtain w1 where
        w1: "run n \<rho> (\<rho> c) ?w1 = Some w1"
          "forEach n \<rho> h (Suc i) (w1\<lparr>depth := depth w\<rparr>) = Some w'"
        by (auto split: option.splits)
      have "wf_set (subscribers (cells ?w1 g))"
        using "3.prems"(2) by (simp add: emit_def)
      from "3.IH"(2) [OF inb Some w1(1) this]
      have "wf_set (subscribers (cells (w1\<lparr>depth := depth w\<rparr>) g))" by simp
      from "3.IH"(3) [OF inb Some w1(1) w1(2) this] show ?thesis .
    qed
  qed
next
  case (4 n \<rho> h w)
  then show ?case by (auto simp: emit_def)
next
  case (5 n \<rho> h v w)
  then show ?case by simp
next
  case (6 n \<rho> h c w)
  then show ?case by (auto simp: subscribe_def wf_set_add)
next
  case (7 n \<rho> h c w)
  then show ?case by (auto simp: unsubscribe_def wf_set_delete)
next
  case (8 n \<rho> h p cs ds w)
  then show ?case by simp
next
  case (9 n \<rho> w)
  then show ?case by simp
next
  case (10 n \<rho> c cs w)
  from "10.prems"(1) obtain w1 where
    w1: "exec n \<rho> c w = Some w1" "run n \<rho> cs w1 = Some w'"
    by (auto split: option.splits)
  from "10.IH"(1) [OF w1(1) "10.prems"(2)] have "wf_set (subscribers (cells w1 g))" .
  from "10.IH"(2) [OF w1(1) w1(2) this] show ?case .
qed

text \<open>
  No execution allocates a store.
\<close>

lemma executions_next_handle:
  "set_value n \<rho> h v w = Some w' \<Longrightarrow> next_handle w' = next_handle w"
  "forEach n \<rho> h i w = Some w' \<Longrightarrow> next_handle w' = next_handle w"
  "exec n \<rho> c w = Some w' \<Longrightarrow> next_handle w' = next_handle w"
  "run n \<rho> cs w = Some w' \<Longrightarrow> next_handle w' = next_handle w"
proof (induction n \<rho> h v w and n \<rho> h i w and n \<rho> c w and n \<rho> cs w
    arbitrary: w' and w' and w' and w'
    rule: set_value_forEach_exec_run.induct)
  case (1 n \<rho> h v w)
  from "1.prems" have "forEach n \<rho> h 0 (assign h (spread (get h w) v) w) = Some w'" by simp
  from "1.IH" [OF this] show ?case by (simp add: assign_def emit_def)
next
  case (2 \<rho> h i w)
  then show ?case by simp
next
  case (3 n \<rho> h i w)
  show ?case
  proof (cases "i < length (subscribers (cells w h))")
    case False
    with "3.prems" show ?thesis by simp
  next
    case inb: True
    show ?thesis
    proof (cases "subscribers (cells w h) ! i")
      case None
      with inb "3.prems" "3.IH"(1) show ?thesis by simp
    next
      case (Some c)
      let ?w1 = "emit (Invoked (depth w) c) (w\<lparr>depth := Suc (depth w)\<rparr>)"
      from "3.prems"(1) inb Some obtain w1 where
        w1: "run n \<rho> (\<rho> c) ?w1 = Some w1"
          "forEach n \<rho> h (Suc i) (w1\<lparr>depth := depth w\<rparr>) = Some w'"
        by (auto split: option.splits)
      from "3.IH"(3) [OF inb Some w1(1) w1(2)] "3.IH"(2) [OF inb Some w1(1)]
      show ?thesis by (simp add: emit_def)
    qed
  qed
next
  case (4 n \<rho> h w)
  then show ?case by (auto simp: emit_def)
next
  case (5 n \<rho> h v w)
  then show ?case by simp
next
  case (6 n \<rho> h c w)
  then show ?case by (auto simp: subscribe_def)
next
  case (7 n \<rho> h c w)
  then show ?case by (auto simp: unsubscribe_def)
next
  case (8 n \<rho> h p cs ds w)
  then show ?case by simp
next
  case (9 n \<rho> w)
  then show ?case by simp
next
  case (10 n \<rho> c cs w)
  from "10.prems"(1) obtain w1 where
    w1: "exec n \<rho> c w = Some w1" "run n \<rho> cs w1 = Some w'"
    by (auto split: option.splits)
  from "10.IH"(1) [OF w1(1)] "10.IH"(2) [OF w1(1) w1(2)] show ?case by simp
qed

text \<open>
  Every execution leaves a trace that replays: each read in it returned the value its
  store held at that point.
\<close>

lemma replay_append:
  "replay \<sigma> (es @ fs) = (case replay \<sigma> es of None \<Rightarrow> None | Some \<tau> \<Rightarrow> replay \<tau> fs)"
proof (induction es arbitrary: \<sigma>)
  case Nil
  then show ?case by simp
next
  case (Cons e es)
  show ?case
  proof (cases e)
    case (Wrote h v)
    show ?thesis
      unfolding Wrote append_Cons replay.simps by (rule Cons.IH)
  qed (simp_all add: Cons.IH)
qed

lemma replay_no_write:
  "replay \<sigma> evs = Some \<tau> \<Longrightarrow> list_all (\<lambda>e. \<forall>v. e \<noteq> Wrote h v) evs \<Longrightarrow> \<tau> h = \<sigma> h"
proof (induction evs arbitrary: \<sigma>)
  case Nil
  then show ?case by simp
next
  case (Cons e evs)
  show ?case
  proof (cases e)
    case (Wrote g v)
    with Cons.prems have "g \<noteq> h" and "replay (\<sigma>(g := v)) evs = Some \<tau>"
      and "list_all (\<lambda>e. \<forall>v. e \<noteq> Wrote h v) evs"
      by auto
    from Cons.IH [OF this(2,3)] \<open>g \<noteq> h\<close> show ?thesis by simp
  next
    case (Read g v)
    with Cons.prems Cons.IH [of \<sigma>] show ?thesis by (auto split: if_splits)
  next
    case (Invoked d c)
    with Cons.prems Cons.IH [of \<sigma>] show ?thesis by auto
  qed
qed

lemma faithful_refl: "faithful w w"
  by (simp add: faithful_def)

lemma faithful_trans:
  assumes "faithful w w1" and "faithful w1 w2"
  shows "faithful w w2"
proof -
  from assms(1) obtain e1 where
    e1: "trace w1 = trace w @ e1" "replay (current w) e1 = Some (current w1)"
    by (auto simp: faithful_def)
  from assms(2) obtain e2 where
    e2: "trace w2 = trace w1 @ e2" "replay (current w1) e2 = Some (current w2)"
    by (auto simp: faithful_def)
  have "trace w2 = trace w @ (e1 @ e2)" "replay (current w) (e1 @ e2) = Some (current w2)"
    using e1 e2 by (simp_all add: replay_append)
  then show ?thesis
    unfolding faithful_def by blast
qed

lemma faithful_same:
  "trace w' = trace w \<Longrightarrow> current w' = current w \<Longrightarrow> faithful w w'"
  by (simp add: faithful_def)

lemma faithful_step:
  "trace w' = trace w @ [e] \<Longrightarrow> replay (current w) [e] = Some (current w') \<Longrightarrow> faithful w w'"
  unfolding faithful_def by blast

lemma faithful_assign: "faithful w (assign h v w)"
  by (rule faithful_step [where e = "Wrote h v"])
     (auto simp: assign_def emit_def current_def get_def fun_eq_iff)

lemma faithful_Get: "faithful w (emit (Read h (get h w)) w)"
  by (rule faithful_step [where e = "Read h (get h w)"])
     (auto simp: emit_def current_def get_def fun_eq_iff)

lemma faithful_enter: "faithful w (emit (Invoked d c) (w\<lparr>depth := k\<rparr>))"
  by (rule faithful_step [where e = "Invoked d c"])
     (auto simp: emit_def current_def get_def fun_eq_iff)

lemma faithful_leave: "faithful w (w\<lparr>depth := k\<rparr>)"
  by (rule faithful_same) (simp_all add: current_def get_def)

lemma faithful_subscribe: "faithful w (snd (subscribe h c w))"
  by (rule faithful_same) (simp_all add: subscribe_def current_def get_def fun_eq_iff)

lemma faithful_unsubscribe: "faithful w (snd (unsubscribe u w))"
  by (rule faithful_same)
     (simp_all add: unsubscribe_def current_def get_def fun_eq_iff split: prod.splits)

lemma executions_faithful:
  "set_value n \<rho> h v w = Some w' \<Longrightarrow> faithful w w'"
  "forEach n \<rho> h i w = Some w' \<Longrightarrow> faithful w w'"
  "exec n \<rho> c w = Some w' \<Longrightarrow> faithful w w'"
  "run n \<rho> cs w = Some w' \<Longrightarrow> faithful w w'"
proof (induction n \<rho> h v w and n \<rho> h i w and n \<rho> c w and n \<rho> cs w
    arbitrary: w' and w' and w' and w'
    rule: set_value_forEach_exec_run.induct)
  case (1 n \<rho> h v w)
  from "1.prems" have "forEach n \<rho> h 0 (assign h (spread (get h w) v) w) = Some w'" by simp
  then have "faithful (assign h (spread (get h w) v) w) w'" by (rule "1.IH")
  with faithful_assign show ?case by (rule faithful_trans)
next
  case (2 \<rho> h i w)
  then show ?case by simp
next
  case (3 n \<rho> h i w)
  show ?case
  proof (cases "i < length (subscribers (cells w h))")
    case False
    with "3.prems" show ?thesis by (simp add: faithful_refl)
  next
    case inb: True
    show ?thesis
    proof (cases "subscribers (cells w h) ! i")
      case None
      with inb "3.prems" "3.IH"(1) show ?thesis by simp
    next
      case (Some c)
      let ?w1 = "emit (Invoked (depth w) c) (w\<lparr>depth := Suc (depth w)\<rparr>)"
      from "3.prems"(1) inb Some obtain w1 where
        w1: "run n \<rho> (\<rho> c) ?w1 = Some w1"
          "forEach n \<rho> h (Suc i) (w1\<lparr>depth := depth w\<rparr>) = Some w'"
        by (auto split: option.splits)
      have a: "faithful w ?w1" by (rule faithful_enter)
      have b: "faithful ?w1 w1" using inb Some w1(1) by (rule "3.IH"(2))
      have c: "faithful w1 (w1\<lparr>depth := depth w\<rparr>)" by (rule faithful_leave)
      have d: "faithful (w1\<lparr>depth := depth w\<rparr>) w'" using inb Some w1 by (rule "3.IH"(3))
      from a b c d show ?thesis by (blast intro: faithful_trans)
    qed
  qed
next
  case (4 n \<rho> h w)
  then show ?case by (auto simp: faithful_Get)
next
  case (5 n \<rho> h v w)
  then show ?case by simp
next
  case (6 n \<rho> h c w)
  then show ?case by (auto simp: faithful_subscribe)
next
  case (7 n \<rho> h c w)
  then show ?case by (auto simp: faithful_unsubscribe)
next
  case (8 n \<rho> h p cs ds w)
  then show ?case by simp
next
  case (9 n \<rho> w)
  then show ?case by (simp add: faithful_refl)
next
  case (10 n \<rho> c cs w)
  from "10.prems"(1) obtain w1 where
    w1: "exec n \<rho> c w = Some w1" "run n \<rho> cs w1 = Some w'"
    by (auto split: option.splits)
  from w1(1) have "faithful w w1" by (rule "10.IH"(1))
  moreover from w1 have "faithful w1 w'" by (rule "10.IH"(2))
  ultimately show ?case by (rule faithful_trans)
qed

lemma faithful_new_events:
  "faithful w w' \<Longrightarrow> replay (current w) (new_events w w') = Some (current w')"
  by (auto simp: faithful_def new_events_append)

text \<open>
  A store is changed only through its own operations: an execution whose callbacks call
  none of them on store \<open>g\<close>, started by \<^verbatim>\<open>set\<close> on another store, leaves \<open>g\<close> as
  it was.
\<close>

lemma executions_spare:
  "set_value n \<rho> h v w = Some w' \<Longrightarrow> \<forall>c. list_all (spares g) (\<rho> c) \<Longrightarrow> h \<noteq> g \<Longrightarrow>
     cells w' g = cells w g"
  "forEach n \<rho> h i w = Some w' \<Longrightarrow> \<forall>c. list_all (spares g) (\<rho> c) \<Longrightarrow>
     cells w' g = cells w g"
  "exec n \<rho> c w = Some w' \<Longrightarrow> \<forall>c. list_all (spares g) (\<rho> c) \<Longrightarrow> spares g c \<Longrightarrow>
     cells w' g = cells w g"
  "run n \<rho> cs w = Some w' \<Longrightarrow> \<forall>c. list_all (spares g) (\<rho> c) \<Longrightarrow> list_all (spares g) cs \<Longrightarrow>
     cells w' g = cells w g"
proof (induction n \<rho> h v w and n \<rho> h i w and n \<rho> c w and n \<rho> cs w
    arbitrary: w' and w' and w' and w'
    rule: set_value_forEach_exec_run.induct)
  case (1 n \<rho> h v w)
  let ?w1 = "assign h (spread (get h w) v) w"
  from "1.prems"(1) have "forEach n \<rho> h 0 ?w1 = Some w'" by simp
  from "1.IH" [OF this "1.prems"(2)] have "cells w' g = cells ?w1 g" .
  also have "\<dots> = cells w g"
    using "1.prems"(3) by (simp add: assign_def emit_def)
  finally show ?case .
next
  case (2 \<rho> h i w)
  then show ?case by simp
next
  case (3 n \<rho> h i w)
  show ?case
  proof (cases "i < length (subscribers (cells w h))")
    case False
    with "3.prems" show ?thesis by simp
  next
    case inb: True
    show ?thesis
    proof (cases "subscribers (cells w h) ! i")
      case None
      with inb "3.prems" "3.IH"(1) show ?thesis by simp
    next
      case (Some c)
      let ?w1 = "emit (Invoked (depth w) c) (w\<lparr>depth := Suc (depth w)\<rparr>)"
      from "3.prems"(1) inb Some obtain w1 where
        w1: "run n \<rho> (\<rho> c) ?w1 = Some w1"
          "forEach n \<rho> h (Suc i) (w1\<lparr>depth := depth w\<rparr>) = Some w'"
        by (auto split: option.splits)
      have body: "list_all (spares g) (\<rho> c)"
        using "3.prems"(2) by simp
      from "3.IH"(3) [OF inb Some w1(1) w1(2) "3.prems"(2)]
      have "cells w' g = cells (w1\<lparr>depth := depth w\<rparr>) g" .
      also have "\<dots> = cells w1 g" by simp
      also from "3.IH"(2) [OF inb Some w1(1) "3.prems"(2) body]
      have "cells w1 g = cells ?w1 g" .
      also have "\<dots> = cells w g" by (simp add: emit_def)
      finally show ?thesis .
    qed
  qed
next
  case (4 n \<rho> h w)
  then show ?case by (auto simp: emit_def)
next
  case (5 n \<rho> h v w)
  then show ?case by simp
next
  case (6 n \<rho> h c w)
  then show ?case by (auto simp: subscribe_def)
next
  case (7 n \<rho> h c w)
  then show ?case by (auto simp: unsubscribe_def)
next
  case (8 n \<rho> h p cs ds w)
  then show ?case by (simp split: if_splits)
next
  case (9 n \<rho> w)
  then show ?case by simp
next
  case (10 n \<rho> c cs w)
  from "10.prems"(1) obtain w1 where
    w1: "exec n \<rho> c w = Some w1" "run n \<rho> cs w1 = Some w'"
    by (auto split: option.splits)
  from "10.prems"(3) have sc: "spares g c" and scs: "list_all (spares g) cs"
    by simp_all
  from "10.IH"(2) [OF w1(1) w1(2) "10.prems"(2) scs] have "cells w' g = cells w1 g" .
  also from "10.IH"(1) [OF w1(1) "10.prems"(2) sc] have "cells w1 g = cells w g" .
  finally show ?case .
qed

section \<open>Notifications that are re-entered\<close>

text \<open>
  The entries of one callback under \<^verbatim>\<open>add\<close>, and under \<^verbatim>\<open>delete\<close> of another
  callback.
\<close>

lemma stable_refl: "stable c es es"
  unfolding stable_def by (intro exI [of _ 0]) simp

lemma stable_trans:
  assumes "stable c es fs" and "stable c fs gs"
  shows "stable c es gs"
proof -
  from assms obtain k l where
    "map (\<lambda>e. e = Some c) fs = map (\<lambda>e. e = Some c) es @ replicate k False"
    "map (\<lambda>e. e = Some c) gs = map (\<lambda>e. e = Some c) fs @ replicate l False"
    by (auto simp: stable_def)
  then have "map (\<lambda>e. e = Some c) gs = map (\<lambda>e. e = Some c) es @ replicate (k + l) False"
    by (simp add: replicate_add)
  then show ?thesis
    unfolding stable_def by blast
qed

lemma stable_in:
  assumes "stable c es es'" and "Some c \<in> set es"
  shows "Some c \<in> set es'"
proof -
  from assms(1) obtain k where
    "map (\<lambda>e. e = Some c) es' = map (\<lambda>e. e = Some c) es @ replicate k False"
    by (auto simp: stable_def)
  with assms(2) have "True \<in> set (map (\<lambda>e. e = Some c) es')"
    by auto
  then show ?thesis by auto
qed

lemma stable_add: "Some c \<in> set es \<Longrightarrow> stable c es (set_add d es)"
proof (cases "Some d \<in> set es")
  case True
  then show ?thesis by (simp add: set_add_def stable_refl)
next
  case False
  assume "Some c \<in> set es"
  with False have "d \<noteq> c" by auto
  with False have "map (\<lambda>e. e = Some c) (set_add d es) =
      map (\<lambda>e. e = Some c) es @ replicate 1 False"
    by (simp add: set_add_def)
  then show ?thesis
    unfolding stable_def by blast
qed

lemma stable_delete: "d \<noteq> c \<Longrightarrow> stable c es (snd (set_delete d es))"
proof -
  assume "d \<noteq> c"
  then have "map (\<lambda>e. e = Some c) (snd (set_delete d es)) =
      map (\<lambda>e. e = Some c) es @ replicate 0 False"
    by (simp add: set_delete_def)
  then show ?thesis
    unfolding stable_def by blast
qed

lemma count_list_flags:
  "count_list es (Some c) = length (filter id (map (\<lambda>e. e = Some c) es))"
  by (induction es) auto

lemma stable_count:
  assumes "stable c es es'"
  shows "count_list (drop j es') (Some c) = count_list (drop j es) (Some c)"
proof -
  from assms obtain k where
    k: "map (\<lambda>e. e = Some c) es' = map (\<lambda>e. e = Some c) es @ replicate k False"
    by (auto simp: stable_def)
  have "count_list (drop j es') (Some c) =
      length (filter id (drop j (map (\<lambda>e. e = Some c) es')))"
    by (simp add: count_list_flags drop_map)
  also have "\<dots> = length (filter id (drop j (map (\<lambda>e. e = Some c) es)))"
    unfolding k by simp
  also have "\<dots> = count_list (drop j es) (Some c)"
    by (simp add: count_list_flags drop_map)
  finally show ?thesis .
qed

lemma count_list_members: "count_list es (Some c) = count_list (members es) c"
proof (induction es)
  case Nil
  then show ?case by simp
next
  case (Cons e es)
  then show ?case by (cases e) simp_all
qed

lemma count_list_drop:
  "i < length es \<Longrightarrow>
   count_list (drop i es) x = (if es ! i = x then 1 else 0) + count_list (drop (Suc i) es) x"
  by (simp add: Cons_nth_drop_Suc [symmetric])

lemma invoked_at_simps [simp]:
  "invoked_at d [] = []"
  "invoked_at d (Invoked d' c # evs) = (if d' = d then c # invoked_at d evs else invoked_at d evs)"
  "invoked_at d (Read h v # evs) = invoked_at d evs"
  "invoked_at d (Wrote h v # evs) = invoked_at d evs"
  "invoked_at d (evs @ evs') = invoked_at d evs @ invoked_at d evs'"
  by (simp_all add: invoked_at_def map_filter_def)

lemma invoked_at_below: "list_all (below (Suc d)) evs \<Longrightarrow> invoked_at d evs = []"
  by (induction evs) (auto simp: below_def split: event.splits)

lemma below_mono: "list_all (below (Suc d)) evs \<Longrightarrow> list_all (below d) evs"
  by (induction evs) (auto simp: below_def split: event.splits)

lemma invoked_at_subset: "set (invoked_at d evs) \<subseteq> set (invoked evs)"
proof (induction evs)
  case Nil
  then show ?case by simp
next
  case (Cons e evs)
  then show ?case by (cases e) auto
qed

lemma undisturbed_refl: "undisturbed h c w w"
  by (simp add: undisturbed_def stable_refl)

lemma undisturbed_trans:
  assumes "undisturbed h c w w1" and "undisturbed h c w1 w2"
  shows "undisturbed h c w w2"
proof -
  from assms(1) obtain e1 where
    a: "depth w1 = depth w" "stable c (subscribers (cells w h)) (subscribers (cells w1 h))"
      "trace w1 = trace w @ e1" "list_all (below (depth w)) e1"
    by (auto simp: undisturbed_def)
  from assms(2) obtain e2 where
    b: "depth w2 = depth w1" "stable c (subscribers (cells w1 h)) (subscribers (cells w2 h))"
      "trace w2 = trace w1 @ e2" "list_all (below (depth w1)) e2"
    by (auto simp: undisturbed_def)
  have "trace w2 = trace w @ (e1 @ e2)" "list_all (below (depth w)) (e1 @ e2)"
    using a b by simp_all
  moreover have "stable c (subscribers (cells w h)) (subscribers (cells w2 h))"
    using a(2) b(2) by (rule stable_trans)
  ultimately show ?thesis
    unfolding undisturbed_def using a(1) b(1) by (intro conjI exI [of _ "e1 @ e2"]) simp_all
qed

lemma undisturbed_emit:
  "below (depth w) e \<Longrightarrow> undisturbed h c w (emit e w)"
  unfolding undisturbed_def
  by (intro conjI exI [of _ "[e]"]) (simp_all add: emit_def stable_refl)

lemma undisturbed_assign: "undisturbed h c w (assign g v w)"
  unfolding undisturbed_def
  by (intro conjI exI [of _ "[Wrote g v]"]) (auto simp: assign_def emit_def stable_refl below_def)

lemma undisturbed_subscribe:
  "Some c \<in> set (subscribers (cells w h)) \<Longrightarrow> undisturbed h c w (snd (subscribe g d w))"
  unfolding undisturbed_def
  by (intro conjI exI [of _ "[]"]) (auto simp: subscribe_def stable_refl stable_add)

lemma undisturbed_unsubscribe:
  "g \<noteq> h \<or> d \<noteq> c \<Longrightarrow> undisturbed h c w (snd (unsubscribe (g, d) w))"
  unfolding undisturbed_def
  by (intro conjI exI [of _ "[]"]) (auto simp: unsubscribe_def stable_refl stable_delete)

text \<open>
  The loop when callbacks re-enter \<^verbatim>\<open>set\<close> and change the registry, but none calls
  the unsubscribe function of \<open>c\<close>: the entry of \<open>c\<close> stays where it is, and the loop
  itself (the invocations at its own depth) invokes \<open>c\<close> once for every entry of
  \<open>c\<close> from index \<open>i\<close> on.
\<close>

lemma executions_undisturbed:
  "set_value n \<rho> g v w = Some w' \<Longrightarrow> \<forall>c'. list_all (keeps h c) (\<rho> c') \<Longrightarrow>
     Some c \<in> set (subscribers (cells w h)) \<Longrightarrow> undisturbed h c w w'"
  "forEach n \<rho> g i w = Some w' \<Longrightarrow> \<forall>c'. list_all (keeps h c) (\<rho> c') \<Longrightarrow>
     Some c \<in> set (subscribers (cells w h)) \<Longrightarrow>
     undisturbed h c w w' \<and>
     (g = h \<longrightarrow> count_list (invoked_at (depth w) (new_events w w')) c =
                  count_list (drop i (subscribers (cells w h))) (Some c))"
  "exec n \<rho> cm w = Some w' \<Longrightarrow> \<forall>c'. list_all (keeps h c) (\<rho> c') \<Longrightarrow> keeps h c cm \<Longrightarrow>
     Some c \<in> set (subscribers (cells w h)) \<Longrightarrow> undisturbed h c w w'"
  "run n \<rho> cs w = Some w' \<Longrightarrow> \<forall>c'. list_all (keeps h c) (\<rho> c') \<Longrightarrow>
     list_all (keeps h c) cs \<Longrightarrow>
     Some c \<in> set (subscribers (cells w h)) \<Longrightarrow> undisturbed h c w w'"
proof (induction n \<rho> g v w and n \<rho> g i w and n \<rho> cm w and n \<rho> cs w
    arbitrary: w' and w' and w' and w'
    rule: set_value_forEach_exec_run.induct)
  case (1 n \<rho> g v w)
  let ?w1 = "assign g (spread (get g w) v) w"
  from "1.prems"(1) have loop: "forEach n \<rho> g 0 ?w1 = Some w'" by simp
  have "Some c \<in> set (subscribers (cells ?w1 h))"
    using "1.prems"(3) by (auto simp: assign_def emit_def)
  from "1.IH" [OF loop "1.prems"(2) this] have "undisturbed h c ?w1 w'" by simp
  with undisturbed_assign show ?case by (rule undisturbed_trans)
next
  case (2 \<rho> g i w)
  then show ?case by simp
next
  case (3 n \<rho> g i w)
  let ?es = "subscribers (cells w g)"
  show ?case
  proof (cases "i < length ?es")
    case False
    with "3.prems"(1) have "w' = w" by simp
    with False show ?thesis
      by (auto simp: undisturbed_refl new_events_def)
  next
    case inb: True
    show ?thesis
    proof (cases "?es ! i")
      case None
      with inb "3.prems"(1) have "forEach n \<rho> g (Suc i) w = Some w'" by simp
      from "3.IH"(1) [OF inb None this "3.prems"(2,3)] inb None show ?thesis
        by (auto simp: count_list_drop)
    next
      case (Some c')
      let ?d = "depth w"
      let ?w1 = "emit (Invoked ?d c') (w\<lparr>depth := Suc ?d\<rparr>)"
      from "3.prems"(1) inb Some obtain w1 where
        w1: "run n \<rho> (\<rho> c') ?w1 = Some w1"
          "forEach n \<rho> g (Suc i) (w1\<lparr>depth := ?d\<rparr>) = Some w'"
        by (auto split: option.splits)
      let ?w2 = "w1\<lparr>depth := ?d\<rparr>"
      have body: "list_all (keeps h c) (\<rho> c')"
        using "3.prems"(2) by simp
      have in1: "Some c \<in> set (subscribers (cells ?w1 h))"
        using "3.prems"(3) by (simp add: emit_def)
      from "3.IH"(2) [OF inb Some w1(1) "3.prems"(2) body in1]
      have u1: "undisturbed h c ?w1 w1" .
      then obtain e1 where
        e1: "depth w1 = Suc ?d"
          "stable c (subscribers (cells w h)) (subscribers (cells w1 h))"
          "trace w1 = trace w @ Invoked ?d c' # e1" "list_all (below (Suc ?d)) e1"
        by (auto simp: undisturbed_def emit_def)
      have in2: "Some c \<in> set (subscribers (cells ?w2 h))"
        using stable_in [OF e1(2) "3.prems"(3)] by simp
      from "3.IH"(3) [OF inb Some w1(1) w1(2) "3.prems"(2) in2]
      have u2: "undisturbed h c ?w2 w'"
        and cnt: "g = h \<longrightarrow> count_list (invoked_at (depth ?w2) (new_events ?w2 w')) c =
                  count_list (drop (Suc i) (subscribers (cells ?w2 h))) (Some c)"
        by simp_all
      from u2 obtain e2 where
        e2: "depth w' = ?d"
          "stable c (subscribers (cells w1 h)) (subscribers (cells w' h))"
          "trace w' = trace w1 @ e2" "list_all (below ?d) e2"
        by (auto simp: undisturbed_def)
      have tr: "trace w' = trace w @ (Invoked ?d c' # e1 @ e2)"
        using e1(3) e2(3) by simp
      have bl: "list_all (below ?d) (Invoked ?d c' # e1 @ e2)"
        using e1(4) e2(4) by (simp add: below_mono) (simp add: below_def)
      have st: "stable c (subscribers (cells w h)) (subscribers (cells w' h))"
        using e1(2) e2(2) by (rule stable_trans)
      have und: "undisturbed h c w w'"
        unfolding undisturbed_def using e2(1) st tr bl by blast
      have "count_list (invoked_at ?d (new_events w w')) c =
            count_list (drop i (subscribers (cells w h))) (Some c)" if gh: "g = h"
      proof -
        have ne2: "new_events ?w2 w' = e2"
          using e2(3) by (simp add: new_events_def)
        from cnt gh ne2 have "count_list (invoked_at ?d e2) c =
            count_list (drop (Suc i) (subscribers (cells w1 h))) (Some c)"
          by simp
        also have "\<dots> = count_list (drop (Suc i) (subscribers (cells w h))) (Some c)"
          using e1(2) by (rule stable_count)
        finally have rest: "count_list (invoked_at ?d e2) c =
            count_list (drop (Suc i) (subscribers (cells w h))) (Some c)" .
        have "new_events w w' = Invoked ?d c' # e1 @ e2"
          using tr by (simp add: new_events_def)
        then have "count_list (invoked_at ?d (new_events w w')) c =
            (if c' = c then 1 else 0) + count_list (invoked_at ?d e2) c"
          using e1(4) by (simp add: invoked_at_below)
        also have "\<dots> = count_list (drop i (subscribers (cells w h))) (Some c)"
          using inb Some gh rest by (simp add: count_list_drop)
        finally show ?thesis .
      qed
      with und show ?thesis by simp
    qed
  qed
next
  case (4 n \<rho> g w)
  then show ?case by (auto simp: undisturbed_emit below_def)
next
  case (5 n \<rho> g v w)
  then show ?case by simp
next
  case (6 n \<rho> g d w)
  then show ?case by (auto simp: undisturbed_subscribe)
next
  case (7 n \<rho> g d w)
  then show ?case by (auto simp: undisturbed_unsubscribe)
next
  case (8 n \<rho> g p cs ds w)
  then show ?case by (simp split: if_splits)
next
  case (9 n \<rho> w)
  then show ?case by (simp add: undisturbed_refl)
next
  case (10 n \<rho> cm cs w)
  from "10.prems"(1) obtain w1 where
    w1: "exec n \<rho> cm w = Some w1" "run n \<rho> cs w1 = Some w'"
    by (auto split: option.splits)
  from "10.prems"(3) have kc: "keeps h c cm" and kcs: "list_all (keeps h c) cs"
    by simp_all
  from "10.IH"(1) [OF w1(1) "10.prems"(2) kc "10.prems"(4)]
  have u1: "undisturbed h c w w1" .
  then have "Some c \<in> set (subscribers (cells w1 h))"
    using "10.prems"(4) by (auto simp: undisturbed_def intro: stable_in)
  from "10.IH"(2) [OF w1(1) w1(2) "10.prems"(2) kcs this]
  have "undisturbed h c w1 w'" .
  with u1 show ?case by (rule undisturbed_trans)
qed

text \<open>
  A subscriber that was registered when \<^verbatim>\<open>set\<close> was called, and whose unsubscribe
  function no callback calls, is invoked exactly once by the loop of that \<^verbatim>\<open>set\<close>
  and is registered when it returns.
\<close>

lemma set_value_outer_loop:
  assumes keep: "\<forall>c'. list_all (keeps h c) (\<rho> c')"
    and wf: "wf_set (subscribers (cells w h))"
    and reg: "c \<in> set (members (subscribers (cells w h)))"
    and ret: "set_value n \<rho> h v w = Some w'"
  shows "count_list (invoked_at (depth w) (new_events w w')) c = 1 \<and>
         c \<in> set (invoked (new_events w w')) \<and>
         c \<in> set (members (subscribers (cells w' h)))"
proof -
  let ?m = "spread (get h w) v"
  let ?w1 = "assign h ?m w"
  let ?es = "subscribers (cells w h)"
  from ret have loop: "forEach n \<rho> h 0 ?w1 = Some w'" by simp
  have es1: "subscribers (cells ?w1 h) = ?es" and d1: "depth ?w1 = depth w"
    and t1: "trace ?w1 = trace w @ [Wrote h ?m]"
    by (simp_all add: assign_def emit_def)
  from reg have in0: "Some c \<in> set ?es"
    by (simp add: set_members)
  then have in1: "Some c \<in> set (subscribers (cells ?w1 h))"
    by (simp add: es1)
  from executions_undisturbed(2) [OF loop keep in1]
  have und: "undisturbed h c ?w1 w'"
    and cnt: "count_list (invoked_at (depth ?w1) (new_events ?w1 w')) c =
        count_list (drop 0 (subscribers (cells ?w1 h))) (Some c)"
    by simp_all
  from und obtain evs where
    evs: "trace w' = trace ?w1 @ evs" "stable c ?es (subscribers (cells w' h))"
    by (auto simp: undisturbed_def es1)
  have ne1: "new_events ?w1 w' = evs"
    using evs(1) by (simp add: new_events_def)
  have ne: "new_events w w' = Wrote h ?m # evs"
    using evs(1) t1 by (simp add: new_events_def)
  have "count_list (invoked_at (depth w) (new_events w w')) c = count_list ?es (Some c)"
    using cnt unfolding ne ne1 d1 es1 by simp
  also have "\<dots> = count_list (members ?es) c"
    by (rule count_list_members)
  also have "\<dots> = 1"
    using wf reg by (simp add: wf_set_def count_list_distinct)
  finally have once: "count_list (invoked_at (depth w) (new_events w w')) c = 1" .
  then have "c \<in> set (invoked_at (depth w) (new_events w w'))"
    by (metis count_list_0_iff zero_neq_one)
  with invoked_at_subset have some: "c \<in> set (invoked (new_events w w'))"
    by blast
  have still: "c \<in> set (members (subscribers (cells w' h)))"
    using stable_in [OF evs(2) in0] by (simp add: set_members)
  from once some still show ?thesis by blast
qed









section \<open>Notifications that return\<close>












section \<open>The scenarios, evaluated\<close>

text \<open>
  The worlds of the scenarios and the executions in them, computed.
\<close>

lemma nested_spread:
  "spread [(''a'', Num 1), (''b'', Obj [(''x'', Num 1), (''y'', Num 2)])]
          [(''b'', Obj [(''x'', Num 5)])] =
     [(''a'', Num 1), (''b'', Obj [(''x'', Num 5)])]"
  by (simp add: spread_def copy_props_def)

lemma ab_world_simps:
  "cells ab_world 0 = \<lparr>store = [(''a'', Num 1), (''b'', Num 2)], subscribers = [Some 7]\<rparr>"
  "trace ab_world = []" "depth ab_world = 0"
  by (simp_all add: ab_world_def fresh_def subscribe_def useStoreData_def set_add_def)

lemma ab_world_set:
  "set_value 2 reader 0 [(''b'', Num 3)] ab_world =
     Some (ab_world
       \<lparr>cells := (cells ab_world)
          (0 := \<lparr>store = [(''a'', Num 1), (''b'', Num 3)], subscribers = [Some 7]\<rparr>),
        trace :=
          [Wrote 0 [(''a'', Num 1), (''b'', Num 3)], Invoked 0 7,
           Read 0 [(''a'', Num 1), (''b'', Num 3)]]\<rparr>)"
  by (simp add: ab_world_simps numeral_2_eq_2 assign_def emit_def get_def spread_def
      copy_props_def reader_def)

lemma three_world_simps:
  "cells three_world 0 =
     \<lparr>store = [(''a'', Num 1), (''b'', Num 2)], subscribers = [Some 1, Some 2, Some 3]\<rparr>"
  "trace three_world = []" "depth three_world = 0"
  by (simp_all add: three_world_def fresh_def subscribe_def useStoreData_def set_add_def)


lemma counted_eq:
  "set_value 2 reader 0 [(''count'', Num 1)] (snd (subscribe 0 1 count_world)) =
     Some \<lparr>cells = (\<lambda>h. \<lparr>store = [], subscribers = []\<rparr>)
              (0 := \<lparr>store = [(''count'', Num 1)], subscribers = [Some 1]\<rparr>),
           next_handle = 1,
           trace = [Wrote 0 [(''count'', Num 1)], Invoked 0 1, Read 0 [(''count'', Num 1)]],
           depth = 0\<rparr>"
  by (simp add: count_world_def fresh_def useStoreData_def subscribe_def set_add_def
      numeral_2_eq_2 assign_def emit_def get_def spread_def copy_props_def reader_def)

lemma counted_simps:
  "cells counted 0 = \<lparr>store = [(''count'', Num 1)], subscribers = [Some 1]\<rparr>"
  "trace counted = [Wrote 0 [(''count'', Num 1)], Invoked 0 1, Read 0 [(''count'', Num 1)]]"
  "depth counted = 0"
  unfolding counted_def counted_eq by simp_all

lemma unsubscribed_simps:
  "cells unsubscribed 0 = \<lparr>store = [(''count'', Num 1)], subscribers = [None]\<rparr>"
  "trace unsubscribed = trace counted"
  "depth unsubscribed = 0"
  by (simp_all add: unsubscribed_def unsubscribe_def set_delete_def counted_simps)

lemma unsubscribed_set:
  "set_value 2 reader 0 [(''count'', Num 2)] unsubscribed =
     Some (unsubscribed\<lparr>cells := (cells unsubscribed)
              (0 := \<lparr>store = [(''count'', Num 2)], subscribers = [None]\<rparr>),
            trace := trace counted @ [Wrote 0 [(''count'', Num 2)]]\<rparr>)"
  by (simp add: unsubscribed_simps numeral_2_eq_2 assign_def emit_def get_def spread_def
      copy_props_def)

lemma subscribe_all_count_world:
  "cells (subscribe_all 0 [3, 1, 2, 1] count_world) 0 =
     \<lparr>store = [(''count'', Num 0)], subscribers = [Some 3, Some 1, Some 2]\<rparr>"
  by (simp add: subscribe_all_def subscribe_def set_add_def count_world_def useStoreData_def
      fresh_def)

lemma normaliser_simps:
  "normaliser (Suc 0) = [Get 0, IfGet 0 (\<lambda>v. map_of v ''b'' \<noteq> Some (Num 4)) [Set 0 [(''b'', Num 4)]] []]"
  "normaliser 2 = [Unsubscribe 0 (Suc 0), Subscribe 0 4]"
  "normaliser 3 = [Get 0]"
  "normaliser 4 = []"
  by (simp_all add: normaliser_def)

lemma normaliser_run:
  "set_value 8 normaliser 0 [(''b'', Num 3)] three_world =
     Some (three_world
       \<lparr>cells := (cells three_world)
          (0 := \<lparr>store = [(''a'', Num 1), (''b'', Num 4)],
                 subscribers = [None, Some 2, Some 3, Some 4]\<rparr>),
        trace :=
          [Wrote 0 [(''a'', Num 1), (''b'', Num 3)],
           Invoked 0 1, Read 0 [(''a'', Num 1), (''b'', Num 3)],
           Wrote 0 [(''a'', Num 1), (''b'', Num 4)],
           Invoked 1 1, Read 0 [(''a'', Num 1), (''b'', Num 4)],
           Invoked 1 2, Invoked 1 3, Read 0 [(''a'', Num 1), (''b'', Num 4)], Invoked 1 4,
           Invoked 0 2, Invoked 0 3, Read 0 [(''a'', Num 1), (''b'', Num 4)], Invoked 0 4]\<rparr>)"
proof -
  have fuel: "(8::nat) = Suc (Suc (Suc (Suc (Suc (Suc (Suc (Suc 0)))))))" by simp
  show ?thesis
    unfolding fuel
    by (simp add: three_world_simps normaliser_simps assign_def emit_def get_def
        spread_def copy_props_def subscribe_def unsubscribe_def set_add_def set_delete_def)
qed

lemma normalised_simps:
  "cells normalised 0 =
     \<lparr>store = [(''a'', Num 1), (''b'', Num 4)], subscribers = [None, Some 2, Some 3, Some 4]\<rparr>"
  "trace normalised =
     [Wrote 0 [(''a'', Num 1), (''b'', Num 3)],
      Invoked 0 1, Read 0 [(''a'', Num 1), (''b'', Num 3)],
      Wrote 0 [(''a'', Num 1), (''b'', Num 4)],
      Invoked 1 1, Read 0 [(''a'', Num 1), (''b'', Num 4)],
      Invoked 1 2, Invoked 1 3, Read 0 [(''a'', Num 1), (''b'', Num 4)], Invoked 1 4,
      Invoked 0 2, Invoked 0 3, Read 0 [(''a'', Num 1), (''b'', Num 4)], Invoked 0 4]"
  "depth normalised = 0"
  unfolding normalised_def normaliser_run by (simp_all add: three_world_simps)







lemma two_stores_simps:
  "cells two_stores 0 = \<lparr>store = [(''count'', Num 0)], subscribers = [Some 1]\<rparr>"
  "cells two_stores (Suc 0) = \<lparr>store = [(''count'', Num 0)], subscribers = [Some 2]\<rparr>"
  "trace two_stores = []" "depth two_stores = 0"
  by (simp_all add: two_stores_def fresh_def useStoreData_def subscribe_def set_add_def)

lemma capper_simps:
  "capper (Suc 0) =
     [IfGet 0 (\<lambda>v. map_of v ''count'' \<noteq> Some (Num 5)) [Set 0 [(''count'', Num 5)]] []]"
  "capper 2 = [Get 1]"
  by (simp_all add: capper_def)

lemma capper_run:
  "set_value 4 capper 0 [(''count'', Num 9)] two_stores =
     Some (two_stores
       \<lparr>cells := (cells two_stores)
          (0 := \<lparr>store = [(''count'', Num 5)], subscribers = [Some 1]\<rparr>),
        trace :=
          [Wrote 0 [(''count'', Num 9)], Invoked 0 1,
           Wrote 0 [(''count'', Num 5)], Invoked 1 1]\<rparr>)"
proof -
  have fuel: "(4::nat) = Suc (Suc (Suc (Suc 0)))" by simp
  show ?thesis
    unfolding fuel
    by (simp add: two_stores_simps capper_simps assign_def emit_def get_def spread_def
        copy_props_def)
qed

lemma pair_world_simps:
  "cells pair_world 0 = \<lparr>store = [(''count'', Num 0)], subscribers = [Some 1, Some 2]\<rparr>"
  "trace pair_world = []" "depth pair_world = 0"
  by (simp_all add: pair_world_def count_world_def fresh_def useStoreData_def subscribe_def
      set_add_def)

lemma unnotified_run:
  "set_value 3 remover 0 [(''count'', Num 1)] pair_world =
     Some (pair_world
       \<lparr>cells := (cells pair_world)
          (0 := \<lparr>store = [(''count'', Num 1)], subscribers = [Some 1, None]\<rparr>),
        trace := [Wrote 0 [(''count'', Num 1)], Invoked 0 1]\<rparr>)"
proof -
  have fuel: "(3::nat) = Suc (Suc (Suc 0))" by simp
  have r: "remover (Suc 0) = [Unsubscribe 0 2]"
    by (simp add: remover_def)
  show ?thesis
    unfolding fuel
    by (simp add: pair_world_simps r assign_def emit_def get_def spread_def copy_props_def
        unsubscribe_def set_delete_def)
qed



section \<open>The claims\<close>

text \<open>
  Claim C1. \<^verbatim>\<open>set(patch)\<close> assigns the shallow merge of the patch over the current
  value: a name of the patch has the patch's value, whatever that value is (an object in
  the patch replaces the old one whole, its fields are not merged), and any other name
  has its old value. With subscribers that only read, \<^verbatim>\<open>set\<close> returns and
  \<^verbatim>\<open>get()\<close> then returns this merge. With any subscribers, when \<^verbatim>\<open>set\<close> returns
  the merge was assigned first of all, and \<^verbatim>\<open>get()\<close> returns it unless a subscriber
  has assigned the store again during the notification.
\<close>

theorem set_value_shallow_merge:
  assumes "wf_obj (get h w)" and "wf_obj patch"
  shows "(\<forall>k. map_of (spread (get h w) patch) k =
            (case map_of patch k of Some v \<Rightarrow> Some v | None \<Rightarrow> map_of (get h w) k)) \<and>
         (readers \<rho> (subscribers (cells w h)) \<and> length (subscribers (cells w h)) < n \<longrightarrow>
            (\<exists>w'. set_value n \<rho> h patch w = Some w' \<and> get h w' = spread (get h w) patch)) \<and>
         (\<forall>w'. set_value n \<rho> h patch w = Some w' \<longrightarrow>
            (\<exists>evs. new_events w w' = Wrote h (spread (get h w) patch) # evs \<and>
               (list_all (\<lambda>e. \<forall>v. e \<noteq> Wrote h v) evs \<longrightarrow>
                  get h w' = spread (get h w) patch)))"
proof -
  let ?m = "spread (get h w) patch"
  let ?w1 = "assign h ?m w"
  have fields: "\<forall>k. map_of ?m k =
      (case map_of patch k of Some v \<Rightarrow> Some v | None \<Rightarrow> map_of (get h w) k)"
    using assms by (simp add: map_of_spread)
  have total: "\<exists>w'. set_value n \<rho> h patch w = Some w' \<and> get h w' = ?m"
    if "readers \<rho> (subscribers (cells w h))" and "length (subscribers (cells w h)) < n"
    using set_value_readers [OF that, of patch] by (auto simp: get_def)
  have any: "\<exists>evs. new_events w w' = Wrote h ?m # evs \<and>
      (list_all (\<lambda>e. \<forall>v. e \<noteq> Wrote h v) evs \<longrightarrow> get h w' = ?m)"
    if ret: "set_value n \<rho> h patch w = Some w'" for w'
  proof -
    from ret have "forEach n \<rho> h 0 ?w1 = Some w'" by simp
    then have "faithful ?w1 w'" by (rule executions_faithful(2))
    then obtain evs where
      evs: "trace w' = trace ?w1 @ evs" "replay (current ?w1) evs = Some (current w')"
      by (auto simp: faithful_def)
    have "new_events w w' = Wrote h ?m # evs"
      using evs(1) by (simp add: new_events_def assign_def emit_def)
    moreover have "get h w' = ?m" if "list_all (\<lambda>e. \<forall>v. e \<noteq> Wrote h v) evs"
    proof -
      from replay_no_write [OF evs(2) that] have "current w' h = current ?w1 h" .
      then show ?thesis by (simp add: current_def get_def assign_def emit_def)
    qed
    ultimately show ?thesis by blast
  qed
  from fields total any show ?thesis by blast
qed

text \<open>
  From \<^verbatim>\<open>{a: 1, b: 2}\<close>, \<^verbatim>\<open>set({b: 3})\<close> gives \<^verbatim>\<open>{a: 1, b: 3}\<close>, assigned before
  the subscriber is invoked and reads it; and over \<^verbatim>\<open>{a: 1, b: {x: 1, y: 2}}\<close> the
  patch \<^verbatim>\<open>{b: {x: 5}}\<close> gives \<^verbatim>\<open>{a: 1, b: {x: 5}}\<close>, without \<^verbatim>\<open>y\<close>.
\<close>

theorem set_value_shallow_merge_witness:
  "wf_obj (get 0 ab_world) \<and> wf_obj [(''b'', Num 3)] \<and>
   readers reader (subscribers (cells ab_world 0)) \<and>
   length (subscribers (cells ab_world 0)) < 2 \<and>
   (\<exists>w'. set_value 2 reader 0 [(''b'', Num 3)] ab_world = Some w' \<and>
      get 0 w' = [(''a'', Num 1), (''b'', Num 3)] \<and>
      map_of (get 0 w') ''a'' = Some (Num 1) \<and> map_of (get 0 w') ''b'' = Some (Num 3) \<and>
      new_events ab_world w' =
        [Wrote 0 [(''a'', Num 1), (''b'', Num 3)], Invoked 0 7,
         Read 0 [(''a'', Num 1), (''b'', Num 3)]]) \<and>
   spread [(''a'', Num 1), (''b'', Obj [(''x'', Num 1), (''y'', Num 2)])]
          [(''b'', Obj [(''x'', Num 5)])] =
     [(''a'', Num 1), (''b'', Obj [(''x'', Num 5)])]"
proof -
  have h1: "wf_obj (get 0 ab_world)" and h2: "wf_obj [(''b'', Num 3)]"
    by (simp_all add: wf_obj_def get_def ab_world_simps)
  have h3: "readers reader (subscribers (cells ab_world 0))"
    by (simp add: readers_def reader_def ab_world_simps)
  have h4: "length (subscribers (cells ab_world 0)) < 2"
    by (simp add: ab_world_simps)
  have sp: "spread (get 0 ab_world) [(''b'', Num 3)] = [(''a'', Num 1), (''b'', Num 3)]"
    by (simp add: get_def ab_world_simps spread_def copy_props_def)
  from set_value_shallow_merge [OF h1 h2, of reader 2] h3 h4 obtain w' where
    "set_value 2 reader 0 [(''b'', Num 3)] ab_world = Some w'"
    "get 0 w' = spread (get 0 ab_world) [(''b'', Num 3)]"
    by blast
  moreover from this(1) have "new_events ab_world w' =
      [Wrote 0 [(''a'', Num 1), (''b'', Num 3)], Invoked 0 7,
       Read 0 [(''a'', Num 1), (''b'', Num 3)]]"
    unfolding ab_world_set by (auto simp: new_events_def ab_world_simps)
  ultimately have "\<exists>w'. set_value 2 reader 0 [(''b'', Num 3)] ab_world = Some w' \<and>
      get 0 w' = [(''a'', Num 1), (''b'', Num 3)] \<and>
      map_of (get 0 w') ''a'' = Some (Num 1) \<and> map_of (get 0 w') ''b'' = Some (Num 3) \<and>
      new_events ab_world w' =
        [Wrote 0 [(''a'', Num 1), (''b'', Num 3)], Invoked 0 7,
         Read 0 [(''a'', Num 1), (''b'', Num 3)]]"
    unfolding sp by (intro exI [of _ w']) simp
  with h1 h2 h3 h4 nested_spread show ?thesis by blast
qed

text \<open>
  Claim C2, as the code has it. In a store whose registry holds distinct subscribers
  that only read (none calls \<^verbatim>\<open>set\<close>, \<^verbatim>\<open>subscribe\<close> or an unsubscribe function
  while it is notified), one \<^verbatim>\<open>set\<close> returns after it has invoked every subscriber
  registered when it was called exactly once, and no other callback; this holds for
  every patch, also one that changes no field. Whatever the callbacks do, a \<^verbatim>\<open>set\<close>
  that returns has invoked exactly once, by its own loop, every subscriber that was
  registered when it was called and whose unsubscribe function no callback calls.
\<close>

theorem set_value_notifies_each_once:
  assumes wf: "wf_set (subscribers (cells w h))"
  shows "(readers \<rho> (subscribers (cells w h)) \<and> length (subscribers (cells w h)) < n \<longrightarrow>
            (\<exists>w'. set_value n \<rho> h v w = Some w' \<and>
               length (invoked (new_events w w')) = length (members (subscribers (cells w h))) \<and>
               (\<forall>c. count_list (invoked (new_events w w')) c =
                  (if c \<in> set (members (subscribers (cells w h))) then 1 else 0)))) \<and>
         (\<forall>w' c. set_value n \<rho> h v w = Some w' \<and>
              c \<in> set (members (subscribers (cells w h))) \<and>
              (\<forall>c'. list_all (keeps h c) (\<rho> c')) \<longrightarrow>
              count_list (invoked_at (depth w) (new_events w w')) c = 1)"
proof -
  let ?ms = "members (subscribers (cells w h))"
  have readers_case: "\<exists>w'. set_value n \<rho> h v w = Some w' \<and>
      length (invoked (new_events w w')) = length ?ms \<and>
      (\<forall>c. count_list (invoked (new_events w w')) c = (if c \<in> set ?ms then 1 else 0))"
    if rd: "readers \<rho> (subscribers (cells w h))" and fuel: "length (subscribers (cells w h)) < n"
  proof -
    from set_value_readers [OF rd fuel, of v] obtain w' evs where
      w': "set_value n \<rho> h v w = Some w'"
        "trace w' = trace w @ Wrote h (spread (get h w) v) # evs"
        "invoked evs = ?ms"
      by auto
    have "invoked (new_events w w') = ?ms"
      using w'(2,3) by (simp add: new_events_append)
    with w'(1) wf show ?thesis
      by (simp add: wf_set_def count_list_distinct)
  qed
  have any_case: "count_list (invoked_at (depth w) (new_events w w')) c = 1"
    if "set_value n \<rho> h v w = Some w'" and "c \<in> set ?ms"
      and "\<forall>c'. list_all (keeps h c) (\<rho> c')" for w' c
    using set_value_outer_loop [OF that(3) wf that(2) that(1)] by blast
  from readers_case any_case show ?thesis by blast
qed

text \<open>
  Three subscribers of \<^verbatim>\<open>{a: 1, b: 2}\<close> and \<^verbatim>\<open>set({b: 2})\<close>, which leaves the value as
  it was: each of the three is invoked once.
\<close>

theorem set_value_notifies_each_once_witness:
  "wf_set (subscribers (cells three_world 0)) \<and>
   readers reader (subscribers (cells three_world 0)) \<and>
   length (subscribers (cells three_world 0)) < 4 \<and>
   members (subscribers (cells three_world 0)) = [1, 2, 3] \<and>
   spread (get 0 three_world) [(''b'', Num 2)] = get 0 three_world \<and>
   (\<exists>w'. set_value 4 reader 0 [(''b'', Num 2)] three_world = Some w' \<and>
      length (invoked (new_events three_world w')) = 3 \<and>
      count_list (invoked (new_events three_world w')) 1 = 1 \<and>
      count_list (invoked (new_events three_world w')) 2 = 1 \<and>
      count_list (invoked (new_events three_world w')) 3 = 1) \<and>
   wf_set (subscribers (cells two_stores 0)) \<and>
   set_value 4 capper 0 [(''count'', Num 9)] two_stores = Some capped \<and>
   1 \<in> set (members (subscribers (cells two_stores 0))) \<and>
   (\<forall>c'. list_all (keeps 0 1) (capper c')) \<and>
   count_list (invoked_at (depth two_stores) (new_events two_stores capped)) 1 = 1 \<and>
   invoked (new_events two_stores capped) = [1, 1]"
proof -
  have h1: "readers reader (subscribers (cells three_world 0))"
    by (simp add: readers_def reader_def three_world_simps)
  have h2: "wf_set (subscribers (cells three_world 0))"
    by (simp add: wf_set_def three_world_simps)
  have h3: "length (subscribers (cells three_world 0)) < 4"
    by (simp add: three_world_simps)
  have ms: "members (subscribers (cells three_world 0)) = [1, 2, 3]"
    by (simp add: three_world_simps)
  have same: "spread (get 0 three_world) [(''b'', Num 2)] = get 0 three_world"
    by (simp add: get_def three_world_simps spread_def copy_props_def)
  from set_value_notifies_each_once [OF h2, of reader 4 "[(''b'', Num 2)]"] h1 h3 obtain w' where
    "set_value 4 reader 0 [(''b'', Num 2)] three_world = Some w'"
    "length (invoked (new_events three_world w')) = length (members (subscribers (cells three_world 0)))"
    "\<forall>c. count_list (invoked (new_events three_world w')) c =
        (if c \<in> set (members (subscribers (cells three_world 0))) then 1 else 0)"
    by blast
  then have part1: "\<exists>w'. set_value 4 reader 0 [(''b'', Num 2)] three_world = Some w' \<and>
      length (invoked (new_events three_world w')) = 3 \<and>
      count_list (invoked (new_events three_world w')) 1 = 1 \<and>
      count_list (invoked (new_events three_world w')) 2 = 1 \<and>
      count_list (invoked (new_events three_world w')) 3 = 1"
    unfolding ms by (intro exI [of _ w']) simp
  have g1: "wf_set (subscribers (cells two_stores 0))"
    by (simp add: wf_set_def two_stores_simps)
  have g2: "set_value 4 capper 0 [(''count'', Num 9)] two_stores = Some capped"
    unfolding capped_def capper_run by simp
  have g3: "1 \<in> set (members (subscribers (cells two_stores 0)))"
    by (simp add: two_stores_simps)
  have g4: "\<forall>c'. list_all (keeps 0 1) (capper c')"
    by (simp add: capper_def)
  from set_value_notifies_each_once [OF g1, of capper 4 "[(''count'', Num 9)]"] g2 g3 g4
  have part2: "count_list (invoked_at (depth two_stores) (new_events two_stores capped)) 1 = 1"
    by blast
  have all: "invoked (new_events two_stores capped) = [1, 1]"
    unfolding capped_def capper_run by (simp add: new_events_def two_stores_simps)
  from h2 h1 h3 ms same part1 g1 g2 g3 g4 part2 all show ?thesis
    by (intro conjI)
qed

text \<open>
  The claim as the specification words it fails: callbacks 1 and 2 are registered when
  \<^verbatim>\<open>set({count: 1})\<close> is called, callback 1 calls the unsubscribe function of
  callback 2, and \<^verbatim>\<open>set\<close> returns having invoked callback 1 only.
\<close>

theorem registered_subscriber_not_notified:
  "members (subscribers (cells pair_world 0)) = [1, 2] \<and>
   set_value 3 remover 0 [(''count'', Num 1)] pair_world = Some unnotified \<and>
   invoked (new_events pair_world unnotified) = [1] \<and>
   count_list (invoked (new_events pair_world unnotified)) 2 = 0"
proof -
  have a: "members (subscribers (cells pair_world 0)) = [1, 2]"
    by (simp add: pair_world_simps)
  have b: "set_value 3 remover 0 [(''count'', Num 1)] pair_world = Some unnotified"
    unfolding unnotified_def unnotified_run by simp
  have tr: "new_events pair_world unnotified = [Wrote 0 [(''count'', Num 1)], Invoked 0 1]"
    unfolding unnotified_def unnotified_run by (simp add: new_events_def pair_world_simps)
  have c: "invoked (new_events pair_world unnotified) = [1]"
    unfolding tr by simp
  have d: "count_list (invoked (new_events pair_world unnotified)) 2 = 0"
    unfolding tr by simp
  from a b c d show ?thesis
    by (intro conjI)
qed




text \<open>
  Claim C4. Two calls of \<^verbatim>\<open>useStoreData\<close> with the same initial value, the second
  at any later time (no operation lowers the allocation counter), give two different
  stores, each holding that value and an empty registry of its own when it is made;
  making the second leaves the first as it is. In every world, a call \<^verbatim>\<open>A.set(p)\<close>
  that returns leaves the value and the registry of \<open>B\<close> as they were, whatever the
  callbacks do (re-entering \<^verbatim>\<open>A.set\<close> included), as long as no callback itself calls
  \<^verbatim>\<open>set\<close>, \<^verbatim>\<open>subscribe\<close> or an unsubscribe function of \<open>B\<close>. And \<^verbatim>\<open>B.set\<close>
  (the subscribers of \<open>B\<close> only read) invokes the members of the registry of \<open>B\<close> and
  no other callback, so none that is subscribed to \<open>A\<close> only, and leaves \<open>A\<close> as it
  was.
\<close>

theorem stores_are_isolated:
  assumes mkA: "useStoreData s w0 = (A, wA)"
    and later: "next_handle wA \<le> next_handle w1"
    and mkB: "useStoreData s w1 = (B, wB)"
    and sp: "\<forall>c. list_all (spares B) (\<rho> c)"
    and setA: "set_value n \<rho> A p w = Some w'"
    and rdB: "readers \<sigma> (subscribers (cells w B))"
    and fuelB: "length (subscribers (cells w B)) < m"
  shows "A \<noteq> B \<and> get A wA = s \<and> get B wB = s \<and>
         subscribers (cells wA A) = [] \<and> subscribers (cells wB B) = [] \<and>
         cells wB A = cells w1 A \<and>
         cells w' B = cells w B \<and> get B w' = get B w \<and>
         (\<exists>w''. set_value m \<sigma> B q w = Some w'' \<and>
            invoked (new_events w w'') = members (subscribers (cells w B)) \<and>
            (\<forall>c. c \<notin> set (members (subscribers (cells w B))) \<longrightarrow>
                 c \<notin> set (invoked (new_events w w''))) \<and>
            cells w'' A = cells w A)"
proof -
  from mkA have A: "A = next_handle w0"
    and wA: "wA = snd (useStoreData s w0)"
    by (auto simp: useStoreData_def)
  from mkB have B: "B = next_handle w1"
    and wB: "wB = snd (useStoreData s w1)"
    by (auto simp: useStoreData_def)
  have "next_handle wA = Suc A"
    unfolding wA A by (simp add: useStoreData_def)
  with later have ne: "A \<noteq> B"
    unfolding B by simp
  have initA: "get A wA = s" "subscribers (cells wA A) = []"
    unfolding wA A get_def by (simp_all add: useStoreData_def)
  have initB: "get B wB = s" "subscribers (cells wB B) = []"
    unfolding wB B get_def by (simp_all add: useStoreData_def)
  have keepA: "cells wB A = cells w1 A"
    using ne unfolding wB B by (simp add: useStoreData_def)
  from executions_spare(1) [OF setA sp ne] have frame: "cells w' B = cells w B" .
  then have getB: "get B w' = get B w"
    by (simp add: get_def)
  from set_value_readers [OF rdB fuelB, of q] obtain w'' evs where
    w'': "set_value m \<sigma> B q w = Some w''"
      "w'' = w\<lparr>cells := (cells w)(B := (cells w B)\<lparr>store := spread (get B w) q\<rparr>),
               trace := trace w @ Wrote B (spread (get B w) q) # evs\<rparr>"
      "invoked evs = members (subscribers (cells w B))"
    by auto
  have inv: "invoked (new_events w w'') = members (subscribers (cells w B))"
    using w''(2,3) by (simp add: new_events_def)
  have "cells w'' A = cells w A"
    using ne w''(2) by simp
  with w''(1) inv have "\<exists>w''. set_value m \<sigma> B q w = Some w'' \<and>
      invoked (new_events w w'') = members (subscribers (cells w B)) \<and>
      (\<forall>c. c \<notin> set (members (subscribers (cells w B))) \<longrightarrow>
           c \<notin> set (invoked (new_events w w''))) \<and>
      cells w'' A = cells w A"
    by (intro exI [of _ w'']) simp
  with ne initA initB keepA frame getB show ?thesis by blast
qed

text \<open>
  Two stores from \<^verbatim>\<open>{count: 0}\<close>: \<^verbatim>\<open>set({count: 9})\<close> on the first, re-entered by
  its subscriber, ends with \<^verbatim>\<open>{count: 5}\<close> there and \<^verbatim>\<open>{count: 0}\<close> in the second;
  \<^verbatim>\<open>set({count: 7})\<close> on the second invokes callback 2 only.
\<close>

theorem stores_are_isolated_witness:
  "useStoreData [(''count'', Num 0)] fresh = (0, snd (useStoreData [(''count'', Num 0)] fresh)) \<and>
   next_handle (snd (useStoreData [(''count'', Num 0)] fresh)) \<le>
     next_handle (snd (useStoreData [(''count'', Num 0)] fresh)) \<and>
   useStoreData [(''count'', Num 0)] (snd (useStoreData [(''count'', Num 0)] fresh)) =
     (1, snd (useStoreData [(''count'', Num 0)] (snd (useStoreData [(''count'', Num 0)] fresh)))) \<and>
   (\<forall>c. list_all (spares 1) (capper c)) \<and>
   set_value 4 capper 0 [(''count'', Num 9)] two_stores = Some capped \<and>
   readers capper (subscribers (cells two_stores 1)) \<and>
   length (subscribers (cells two_stores 1)) < 2 \<and>
   get 0 capped = [(''count'', Num 5)] \<and>
   get 1 capped = [(''count'', Num 0)] \<and>
   (\<exists>w''. set_value 2 capper 1 [(''count'', Num 7)] two_stores = Some w'' \<and>
      invoked (new_events two_stores w'') = [2] \<and>
      get 0 w'' = [(''count'', Num 0)])"
proof -
  let ?s = "[(''count'', Num 0)]"
  have h1: "useStoreData ?s fresh = (0, snd (useStoreData ?s fresh))"
    by (simp add: useStoreData_def fresh_def)
  have h1': "next_handle (snd (useStoreData ?s fresh)) \<le> next_handle (snd (useStoreData ?s fresh))"
    by simp
  have h2: "useStoreData ?s (snd (useStoreData ?s fresh)) =
      (1, snd (useStoreData ?s (snd (useStoreData ?s fresh))))"
    by (simp add: useStoreData_def fresh_def)
  have h3: "\<forall>c. list_all (spares 1) (capper c)"
    by (simp add: capper_def)
  have h4: "set_value 4 capper 0 [(''count'', Num 9)] two_stores = Some capped"
    unfolding capped_def capper_run by simp
  have h5: "readers capper (subscribers (cells two_stores 1))"
    by (simp add: two_stores_simps readers_def capper_simps)
  have h6: "length (subscribers (cells two_stores 1)) < 2"
    by (simp add: two_stores_simps)
  note t = stores_are_isolated [OF h1 h1' h2 h3 h4 h5 h6, of "[(''count'', Num 7)]"]
  have g0: "get 0 capped = [(''count'', Num 5)]"
    unfolding capped_def capper_run by (simp add: get_def)
  from t have "get 1 capped = get 1 two_stores" by blast
  then have g1: "get 1 capped = [(''count'', Num 0)]"
    by (simp add: get_def two_stores_simps)
  from t obtain w'' where
    w'': "set_value 2 capper 1 [(''count'', Num 7)] two_stores = Some w''"
      "invoked (new_events two_stores w'') = members (subscribers (cells two_stores 1))"
      "cells w'' 0 = cells two_stores 0"
    by blast
  then have "\<exists>w''. set_value 2 capper 1 [(''count'', Num 7)] two_stores = Some w'' \<and>
      invoked (new_events two_stores w'') = [2] \<and>
      get 0 w'' = [(''count'', Num 0)]"
    by (intro exI [of _ w'']) (simp add: get_def two_stores_simps)
  with h1 h1' h2 h3 h4 h5 h6 g0 g1 show ?thesis
    by (intro conjI)
qed

text \<open>
  Claim C5. A store holds one value. A \<^verbatim>\<open>set\<close> that returns has assigned the merged
  value before anything else happened, so before any subscriber was invoked, and every
  \<^verbatim>\<open>get()\<close> during the call, from whatever callback and however \<^verbatim>\<open>set\<close> is
  re-entered, returned the value of the latest assignment to its store, never an older
  one; at the end the stores hold the values last assigned. With subscribers that only
  read, every \<^verbatim>\<open>get()\<close> of this store during the notification returned the merged
  value. \<^verbatim>\<open>get\<close> itself returns in every world, changes no store and no registry, and
  invokes nothing.
\<close>

theorem get_returns_current_value:
  assumes "set_value n \<rho> h v w = Some w'"
  shows "(\<exists>evs. new_events w w' = Wrote h (spread (get h w) v) # evs) \<and>
         replay (current w) (new_events w w') = Some (current w') \<and>
         (readers \<rho> (subscribers (cells w h)) \<and> length (subscribers (cells w h)) < n \<longrightarrow>
            (\<forall>x. Read h x \<in> set (new_events w w') \<longrightarrow> x = spread (get h w) v)) \<and>
         exec m \<sigma> (Get g) w = Some (emit (Read g (get g w)) w) \<and>
         cells (emit (Read g (get g w)) w) = cells w \<and>
         invoked (new_events w (emit (Read g (get g w)) w)) = []"
proof -
  let ?m = "spread (get h w) v"
  let ?w1 = "assign h ?m w"
  from assms have loop: "forEach n \<rho> h 0 ?w1 = Some w'" by simp
  then have "faithful ?w1 w'" by (rule executions_faithful(2))
  then obtain evs where "trace w' = trace ?w1 @ evs"
    by (auto simp: faithful_def)
  then have "trace w' = trace w @ Wrote h ?m # evs"
    by (simp add: assign_def emit_def)
  then have first: "\<exists>evs. new_events w w' = Wrote h ?m # evs"
    by (simp add: new_events_append)
  from assms have "faithful w w'" by (rule executions_faithful(1))
  then have rp: "replay (current w) (new_events w w') = Some (current w')"
    by (rule faithful_new_events)
  have rd: "\<forall>x. Read h x \<in> set (new_events w w') \<longrightarrow> x = ?m"
    if r: "readers \<rho> (subscribers (cells w h))" and f: "length (subscribers (cells w h)) < n"
  proof -
    from set_value_readers [OF r f, of v] assms obtain es where
      es: "trace w' = trace w @ Wrote h ?m # es" "list_all (notify_event ?w1) es"
      by auto
    have "get h ?w1 = ?m" by (simp add: assign_def emit_def get_def)
    with es(2) have "\<forall>x. Read h x \<in> set es \<longrightarrow> x = ?m"
      by (auto simp: list_all_iff notify_event_def)
    with es(1) show ?thesis by (simp add: new_events_append)
  qed
  have "exec m \<sigma> (Get g) w = Some (emit (Read g (get g w)) w)"
    and "cells (emit (Read g (get g w)) w) = cells w"
    and "invoked (new_events w (emit (Read g (get g w)) w)) = []"
    by (simp_all add: emit_def new_events_def)
  with first rp rd show ?thesis by blast
qed

text \<open>
  \<^verbatim>\<open>set({b: 3})\<close> on \<^verbatim>\<open>{a: 1, b: 2}\<close> with the callbacks above: callback 1 reads
  \<^verbatim>\<open>{a: 1, b: 3}\<close> and re-enters \<^verbatim>\<open>set\<close>; every later read returns
  \<^verbatim>\<open>{a: 1, b: 4}\<close>. And in the counter scenario, whose subscriber only reads, the
  read during \<^verbatim>\<open>set({count: 1})\<close> returns \<^verbatim>\<open>{count: 1}\<close>.
\<close>

theorem get_returns_current_value_witness:
  "set_value 8 normaliser 0 [(''b'', Num 3)] three_world = Some normalised \<and>
   new_events three_world normalised =
     [Wrote 0 [(''a'', Num 1), (''b'', Num 3)],
      Invoked 0 1, Read 0 [(''a'', Num 1), (''b'', Num 3)],
      Wrote 0 [(''a'', Num 1), (''b'', Num 4)],
      Invoked 1 1, Read 0 [(''a'', Num 1), (''b'', Num 4)],
      Invoked 1 2, Invoked 1 3, Read 0 [(''a'', Num 1), (''b'', Num 4)], Invoked 1 4,
      Invoked 0 2, Invoked 0 3, Read 0 [(''a'', Num 1), (''b'', Num 4)], Invoked 0 4] \<and>
   replay (current three_world) (new_events three_world normalised) = Some (current normalised) \<and>
   get 0 normalised = [(''a'', Num 1), (''b'', Num 4)] \<and>
   readers reader (subscribers (cells (snd (subscribe 0 1 count_world)) 0)) \<and>
   length (subscribers (cells (snd (subscribe 0 1 count_world)) 0)) < 2 \<and>
   set_value 2 reader 0 [(''count'', Num 1)] (snd (subscribe 0 1 count_world)) = Some counted \<and>
   new_events (snd (subscribe 0 1 count_world)) counted =
     [Wrote 0 [(''count'', Num 1)], Invoked 0 1, Read 0 [(''count'', Num 1)]]"
proof -
  have h1: "set_value 8 normaliser 0 [(''b'', Num 3)] three_world = Some normalised"
    unfolding normalised_def normaliser_run by simp
  from get_returns_current_value [OF h1]
  have rp: "replay (current three_world) (new_events three_world normalised) = Some (current normalised)"
    by blast
  have ne: "new_events three_world normalised =
     [Wrote 0 [(''a'', Num 1), (''b'', Num 3)],
      Invoked 0 1, Read 0 [(''a'', Num 1), (''b'', Num 3)],
      Wrote 0 [(''a'', Num 1), (''b'', Num 4)],
      Invoked 1 1, Read 0 [(''a'', Num 1), (''b'', Num 4)],
      Invoked 1 2, Invoked 1 3, Read 0 [(''a'', Num 1), (''b'', Num 4)], Invoked 1 4,
      Invoked 0 2, Invoked 0 3, Read 0 [(''a'', Num 1), (''b'', Num 4)], Invoked 0 4]"
    by (simp add: new_events_def normalised_simps three_world_simps)
  have g: "get 0 normalised = [(''a'', Num 1), (''b'', Num 4)]"
    by (simp add: get_def normalised_simps)
  let ?w = "snd (subscribe 0 1 count_world)"
  have cw: "cells ?w 0 = \<lparr>store = [(''count'', Num 0)], subscribers = [Some 1]\<rparr>"
    "trace ?w = []"
    by (simp_all add: count_world_def fresh_def useStoreData_def subscribe_def set_add_def)
  have r1: "readers reader (subscribers (cells ?w 0))"
    unfolding cw by (simp add: readers_def reader_def)
  have r2: "length (subscribers (cells ?w 0)) < 2"
    unfolding cw by simp
  have r3: "set_value 2 reader 0 [(''count'', Num 1)] ?w = Some counted"
    unfolding counted_def counted_eq by simp
  have r4: "new_events ?w counted =
      [Wrote 0 [(''count'', Num 1)], Invoked 0 1, Read 0 [(''count'', Num 1)]]"
    unfolding new_events_def cw by (simp add: counted_simps)
  from h1 ne rp g r1 r2 r3 r4 show ?thesis
    by (intro conjI)
qed

text \<open>
  Claim C6. Let \<open>u\<close> be the function \<^verbatim>\<open>subscribe(cb)\<close> returned. Called in any
  world, it removes \<open>cb\<close> from the registry and nothing else: the other members stay,
  in their order, and nothing but this registry changes. A following \<^verbatim>\<open>set\<close> (the
  remaining subscribers only read) does not invoke \<open>cb\<close>. Called again, and in any
  world where \<open>cb\<close> is not registered, \<open>u\<close> returns normally and leaves the world
  exactly as it was.
\<close>

theorem unsubscribe_removes_idempotent:
  assumes "subscribe h cb w = (u, w0)"
    and "unsubscribe u w1 = (b, w2)"
    and "readers \<rho> (subscribers (cells w2 h))"
    and "length (subscribers (cells w2 h)) < n"
  shows "b = (cb \<in> set (members (subscribers (cells w1 h)))) \<and>
         members (subscribers (cells w2 h)) = removeAll cb (members (subscribers (cells w1 h))) \<and>
         w2 = w1\<lparr>cells := (cells w1)(h := (cells w1 h)\<lparr>subscribers := subscribers (cells w2 h)\<rparr>)\<rparr> \<and>
         (\<exists>w'. set_value n \<rho> h v w2 = Some w' \<and> cb \<notin> set (invoked (new_events w2 w'))) \<and>
         unsubscribe u w2 = (False, w2) \<and>
         (\<forall>w3. cb \<notin> set (members (subscribers (cells w3 h))) \<longrightarrow> unsubscribe u w3 = (False, w3))"
proof -
  from assms(1) have u: "u = (h, cb)"
    by (auto simp: subscribe_def)
  from assms(2) have w2: "w2 = snd (unsubscribe (h, cb) w1)"
    and b: "b = fst (unsubscribe (h, cb) w1)"
    unfolding u by simp_all
  have "b = (cb \<in> set (members (subscribers (cells w1 h))))"
    unfolding b by (simp add: unsubscribe_def set_delete_def set_members)
  moreover have ms: "members (subscribers (cells w2 h)) = removeAll cb (members (subscribers (cells w1 h)))"
    unfolding w2 by (rule members_unsubscribe)
  moreover have "w2 = w1\<lparr>cells := (cells w1)(h := (cells w1 h)\<lparr>subscribers := subscribers (cells w2 h)\<rparr>)\<rparr>"
    unfolding w2 by (simp add: unsubscribe_def)
  moreover have "\<exists>w'. set_value n \<rho> h v w2 = Some w' \<and> cb \<notin> set (invoked (new_events w2 w'))"
  proof -
    from set_value_readers [OF assms(3,4), of v] obtain w' evs where
      "set_value n \<rho> h v w2 = Some w'"
      "trace w' = trace w2 @ Wrote h (spread (get h w2) v) # evs"
      "invoked evs = members (subscribers (cells w2 h))"
      by auto
    then show ?thesis
      using ms by (intro exI [of _ w']) (simp add: new_events_append)
  qed
  moreover have gone: "cb \<notin> set (members (subscribers (cells w2 h)))"
    using ms by simp
  then have "unsubscribe u w2 = (False, w2)"
    unfolding u by (rule unsubscribe_absent)
  moreover have "\<forall>w3. cb \<notin> set (members (subscribers (cells w3 h))) \<longrightarrow> unsubscribe u w3 = (False, w3)"
    unfolding u by (simp add: unsubscribe_absent)
  ultimately show ?thesis by blast
qed

text \<open>
  The counter scenario: \<^verbatim>\<open>cb1\<close> is invoked once by \<^verbatim>\<open>set({count: 1})\<close>, and after
  its unsubscribe function was called \<^verbatim>\<open>set({count: 2})\<close> installs \<^verbatim>\<open>{count: 2}\<close>
  without invoking it; a second call of the function changes nothing.
\<close>

theorem unsubscribe_removes_idempotent_witness:
  "subscribe 0 1 count_world = ((0, 1), snd (subscribe 0 1 count_world)) \<and>
   get 0 counted = [(''count'', Num 1)] \<and> invoked (trace counted) = [1] \<and>
   unsubscribe (0, 1) counted = (True, unsubscribed) \<and>
   readers reader (subscribers (cells unsubscribed 0)) \<and>
   length (subscribers (cells unsubscribed 0)) < 2 \<and>
   members (subscribers (cells unsubscribed 0)) = [] \<and>
   (\<exists>w'. set_value 2 reader 0 [(''count'', Num 2)] unsubscribed = Some w' \<and>
      get 0 w' = [(''count'', Num 2)] \<and>
      1 \<notin> set (invoked (new_events unsubscribed w'))) \<and>
   unsubscribe (0, 1) unsubscribed = (False, unsubscribed)"
proof -
  have h1: "subscribe 0 1 count_world = ((0, 1), snd (subscribe 0 1 count_world))"
    by (simp add: subscribe_def)
  have h2: "unsubscribe (0, 1) counted = (True, unsubscribed)"
    by (simp add: unsubscribed_def) (simp add: unsubscribe_def set_delete_def counted_simps)
  have h3: "readers reader (subscribers (cells unsubscribed 0))"
    by (simp add: readers_def unsubscribed_simps)
  have h4: "length (subscribers (cells unsubscribed 0)) < 2"
    by (simp add: unsubscribed_simps)
  note t = unsubscribe_removes_idempotent [OF h1 h2 h3 h4, of "[(''count'', Num 2)]"]
  from t obtain w' where
    w': "set_value 2 reader 0 [(''count'', Num 2)] unsubscribed = Some w'"
      "1 \<notin> set (invoked (new_events unsubscribed w'))"
    by blast
  from w'(1) have "get 0 w' = [(''count'', Num 2)]"
    unfolding unsubscribed_set by (auto simp: get_def)
  with w' have "\<exists>w'. set_value 2 reader 0 [(''count'', Num 2)] unsubscribed = Some w' \<and>
      get 0 w' = [(''count'', Num 2)] \<and>
      1 \<notin> set (invoked (new_events unsubscribed w'))"
    by blast
  moreover from t have "unsubscribe (0, 1) unsubscribed = (False, unsubscribed)"
    by blast
  moreover have "get 0 counted = [(''count'', Num 1)]" "invoked (trace counted) = [1]"
    "members (subscribers (cells unsubscribed 0)) = []"
    by (simp_all add: get_def counted_simps unsubscribed_simps)
  ultimately show ?thesis
    using h1 h2 h3 h4 by blast
qed

text \<open>
  Claim C7. \<^verbatim>\<open>subscribe\<close> registers the callback and does nothing else: it adds no
  event to the trace (the callback is not invoked), leaves the value of every store as
  it was, and touches no other store. An unsubscribe function invokes nothing and
  changes no value either. Any code that never calls \<^verbatim>\<open>set\<close>, however it subscribes,
  unsubscribes and reads, returns with no callback invoked and every store value
  unchanged.
\<close>

theorem subscribe_only_registers:
  assumes "list_all set_free cs"
  shows "trace (snd (subscribe h cb w)) = trace w \<and>
         (\<forall>h'. get h' (snd (subscribe h cb w)) = get h' w) \<and>
         cb \<in> set (members (subscribers (cells (snd (subscribe h cb w)) h))) \<and>
         (\<forall>h'. h' \<noteq> h \<longrightarrow> cells (snd (subscribe h cb w)) h' = cells w h') \<and>
         depth (snd (subscribe h cb w)) = depth w \<and>
         next_handle (snd (subscribe h cb w)) = next_handle w \<and>
         trace (snd (unsubscribe u w)) = trace w \<and>
         (\<forall>h'. get h' (snd (unsubscribe u w)) = get h' w) \<and>
         (\<exists>w'. run n \<rho> cs w = Some w' \<and> invoked (new_events w w') = [] \<and>
                (\<forall>h'. get h' w' = get h' w))"
proof -
  have "cb \<in> set (members (subscribers (cells (snd (subscribe h cb w)) h)))"
    by (simp add: subscribe_def members_set_add)
  moreover have "trace (snd (subscribe h cb w)) = trace w"
    and "\<forall>h'. get h' (snd (subscribe h cb w)) = get h' w"
    and "\<forall>h'. h' \<noteq> h \<longrightarrow> cells (snd (subscribe h cb w)) h' = cells w h'"
    and "depth (snd (subscribe h cb w)) = depth w"
    and "next_handle (snd (subscribe h cb w)) = next_handle w"
    by (simp_all add: subscribe_def get_def)
  moreover have "trace (snd (unsubscribe u w)) = trace w"
    and "\<forall>h'. get h' (snd (unsubscribe u w)) = get h' w"
    by (simp_all add: unsubscribe_def get_def split: prod.splits)
  moreover from run_set_free [OF assms] obtain w' where
    "run n \<rho> cs w = Some w'" "only_read w w'"
    by blast
  then have "\<exists>w'. run n \<rho> cs w = Some w' \<and> invoked (new_events w w') = [] \<and>
                (\<forall>h'. get h' w' = get h' w)"
    by (auto simp: only_read_invoked) (simp add: only_read_def)
  ultimately show ?thesis by blast
qed

text \<open>
  Subscribing, reading and unsubscribing on \<^verbatim>\<open>{a: 1, b: 2}\<close>, with callbacks that would
  call \<^verbatim>\<open>set\<close>: none is invoked and the value stays.
\<close>

theorem subscribe_only_registers_witness:
  "list_all set_free sub_prog \<and>
   (\<exists>w'. run 0 setter sub_prog ab_world = Some w' \<and>
      invoked (new_events ab_world w') = [] \<and>
      get 0 w' = [(''a'', Num 1), (''b'', Num 2)] \<and>
      members (subscribers (cells w' 0)) = [7, 2, 3])"
proof -
  have h1: "list_all set_free sub_prog"
    by (simp add: sub_prog_def)
  have r: "run 0 setter sub_prog ab_world =
      Some (ab_world\<lparr>cells := (cells ab_world)
              (0 := \<lparr>store = [(''a'', Num 1), (''b'', Num 2)],
                     subscribers = [Some 7, None, Some 2, Some 3]\<rparr>),
            trace := [Read 0 [(''a'', Num 1), (''b'', Num 2)]]\<rparr>)"
    by (simp add: sub_prog_def ab_world_simps subscribe_def unsubscribe_def set_add_def
        set_delete_def emit_def get_def)
  from subscribe_only_registers [OF h1, of 0 7 ab_world "(0, 7)" 0 setter] obtain w' where
    "run 0 setter sub_prog ab_world = Some w'" "invoked (new_events ab_world w') = []"
    "get 0 w' = get 0 ab_world"
    by blast
  then have "\<exists>w'. run 0 setter sub_prog ab_world = Some w' \<and>
      invoked (new_events ab_world w') = [] \<and>
      get 0 w' = [(''a'', Num 1), (''b'', Num 2)] \<and>
      members (subscribers (cells w' 0)) = [7, 2, 3]"
    using r by (intro exI [of _ w']) (auto simp: get_def ab_world_simps)
  with h1 show ?thesis by blast
qed

text \<open>
  Claim C8. A registry without duplicates stays so under \<^verbatim>\<open>subscribe\<close>, under an
  unsubscribe function, under \<^verbatim>\<open>set\<close> and under any code run from it. Subscribing
  the same callback a second time changes nothing: it is registered once, and a
  following \<^verbatim>\<open>set\<close> (the subscribers only read) invokes it exactly once. One call of
  either returned unsubscribe function removes it, and a later \<^verbatim>\<open>set\<close> does not
  invoke it.
\<close>

theorem registry_is_a_set:
  assumes wf: "wf_set (subscribers (cells w h))"
    and s1: "subscribe h cb w = (u1, w1)"
    and s2: "subscribe h cb w1 = (u2, w2)"
    and rd: "readers \<rho> (subscribers (cells w2 h))"
    and fuel: "length (subscribers (cells w2 h)) < n"
    and u: "u = u1 \<or> u = u2"
  shows "wf_set (subscribers (cells w2 h)) \<and> w2 = w1 \<and>
         count_list (members (subscribers (cells w2 h))) cb = 1 \<and>
         (\<exists>w'. set_value n \<rho> h v w2 = Some w' \<and>
            count_list (invoked (new_events w2 w')) cb = 1 \<and>
            wf_set (subscribers (cells w' h))) \<and>
         wf_set (subscribers (cells (snd (unsubscribe u w2)) h)) \<and>
         cb \<notin> set (members (subscribers (cells (snd (unsubscribe u w2)) h))) \<and>
         (\<exists>w'. set_value n \<rho> h v (snd (unsubscribe u w2)) = Some w' \<and>
            cb \<notin> set (invoked (new_events (snd (unsubscribe u w2)) w'))) \<and>
         (\<forall>m \<sigma> cs w''. run m \<sigma> cs w = Some w'' \<longrightarrow> wf_set (subscribers (cells w'' h)))"
proof -
  from s1 have w1: "w1 = snd (subscribe h cb w)" and u1: "u1 = (h, cb)"
    by (auto simp: subscribe_def)
  from s2 have w2': "w2 = snd (subscribe h cb w1)" and u2: "u2 = (h, cb)"
    by (auto simp: subscribe_def)
  from u u1 u2 have u': "u = (h, cb)" by auto
  have wf1: "wf_set (subscribers (cells w1 h))"
    unfolding w1 using wf by (simp add: subscribe_def wf_set_add)
  have in1: "cb \<in> set (members (subscribers (cells w1 h)))"
    unfolding w1 by (simp add: subscribe_def members_set_add)
  have w2: "w2 = w1"
    unfolding w2' using in1 by (rule subscribe_again)
  have wf2: "wf_set (subscribers (cells w2 h))"
    using wf1 w2 by simp
  have once: "count_list (members (subscribers (cells w2 h))) cb = 1"
    using wf2 in1 w2 by (simp add: wf_set_def count_list_distinct)
  have set2: "\<exists>w'. set_value n \<rho> h v w2 = Some w' \<and>
            count_list (invoked (new_events w2 w')) cb = 1 \<and>
            wf_set (subscribers (cells w' h))"
  proof -
    from set_value_readers [OF rd fuel, of v] obtain w' evs where
      w': "set_value n \<rho> h v w2 = Some w'"
        "trace w' = trace w2 @ Wrote h (spread (get h w2) v) # evs"
        "invoked evs = members (subscribers (cells w2 h))"
      by auto
    have "wf_set (subscribers (cells w' h))"
      using w'(1) wf2 by (rule wf_set_preserved(1))
    with w' once show ?thesis
      by (intro exI [of _ w']) (simp add: new_events_append)
  qed
  let ?w3 = "snd (unsubscribe u w2)"
  have es3: "subscribers (cells ?w3 h) = snd (set_delete cb (subscribers (cells w2 h)))"
    unfolding u' by (simp add: unsubscribe_def)
  have wf3: "wf_set (subscribers (cells ?w3 h))"
    unfolding es3 using wf2 by (rule wf_set_delete)
  have out3: "cb \<notin> set (members (subscribers (cells ?w3 h)))"
    unfolding es3 by (simp add: members_set_delete)
  have set3: "\<exists>w'. set_value n \<rho> h v ?w3 = Some w' \<and> cb \<notin> set (invoked (new_events ?w3 w'))"
  proof -
    have rd3: "readers \<rho> (subscribers (cells ?w3 h))"
      unfolding es3 using rd by (rule readers_set_delete)
    have fuel3: "length (subscribers (cells ?w3 h)) < n"
      unfolding es3 using fuel by (simp add: set_delete_def)
    from set_value_readers [OF rd3 fuel3, of v] obtain w' evs where
      "set_value n \<rho> h v ?w3 = Some w'"
      "trace w' = trace ?w3 @ Wrote h (spread (get h ?w3) v) # evs"
      "invoked evs = members (subscribers (cells ?w3 h))"
      by auto
    with out3 show ?thesis
      by (intro exI [of _ w']) (simp add: new_events_append)
  qed
  have inv: "\<forall>m \<sigma> cs w''. run m \<sigma> cs w = Some w'' \<longrightarrow> wf_set (subscribers (cells w'' h))"
    using wf by (auto intro: wf_set_preserved(4))
  from wf2 w2 once set2 wf3 out3 set3 inv show ?thesis by blast
qed

text \<open>
  Callback 5 subscribed twice to a store with the subscribers 1, 2, 3: it is the fourth
  member, invoked once, and gone after one unsubscribe.
\<close>

theorem registry_is_a_set_witness:
  "wf_set (subscribers (cells three_world 0)) \<and>
   subscribe 0 5 three_world = ((0, 5), snd (subscribe 0 5 three_world)) \<and>
   subscribe 0 5 (snd (subscribe 0 5 three_world)) = ((0, 5), snd (subscribe 0 5 three_world)) \<and>
   readers reader (subscribers (cells (snd (subscribe 0 5 three_world)) 0)) \<and>
   length (subscribers (cells (snd (subscribe 0 5 three_world)) 0)) < 5 \<and>
   members (subscribers (cells (snd (subscribe 0 5 three_world)) 0)) = [1, 2, 3, 5] \<and>
   (\<exists>w'. set_value 5 reader 0 [] (snd (subscribe 0 5 three_world)) = Some w' \<and>
      count_list (invoked (new_events (snd (subscribe 0 5 three_world)) w')) 5 = 1) \<and>
   members (subscribers (cells (snd (unsubscribe (0, 5) (snd (subscribe 0 5 three_world)))) 0)) = [1, 2, 3] \<and>
   (\<exists>w'. set_value 5 reader 0 [] (snd (unsubscribe (0, 5) (snd (subscribe 0 5 three_world)))) = Some w' \<and>
      5 \<notin> set (invoked (new_events (snd (unsubscribe (0, 5) (snd (subscribe 0 5 three_world)))) w')))"
proof -
  let ?w1 = "snd (subscribe 0 5 three_world)"
  have c1: "cells ?w1 0 =
      \<lparr>store = [(''a'', Num 1), (''b'', Num 2)], subscribers = [Some 1, Some 2, Some 3, Some 5]\<rparr>"
    by (simp add: subscribe_def set_add_def three_world_simps)
  have h1: "wf_set (subscribers (cells three_world 0))"
    by (simp add: wf_set_def three_world_simps)
  have h2: "subscribe 0 5 three_world = ((0, 5), ?w1)"
    by (simp add: subscribe_def)
  have h3: "subscribe 0 5 ?w1 = ((0, 5), ?w1)"
    by (simp add: subscribe_def set_add_def three_world_simps)
  have h4: "readers reader (subscribers (cells ?w1 0))"
    by (simp add: c1 readers_def reader_def)
  have h5: "length (subscribers (cells ?w1 0)) < 5"
    by (simp add: c1)
  have h6: "(0, 5) = (0, 5) \<or> (0::nat, 5::nat) = (0, 5)" by simp
  note t = registry_is_a_set [OF h1 h2 h3 h4 h5 h6, of "[]"]
  have m1: "members (subscribers (cells ?w1 0)) = [1, 2, 3, 5]"
    by (simp add: c1)
  have m3: "members (subscribers (cells (snd (unsubscribe (0, 5) ?w1)) 0)) = [1, 2, 3]"
    by (simp add: members_unsubscribe m1)
  from t h1 h2 h3 h4 h5 m1 m3 show ?thesis by blast
qed

text \<open>
  Claim C9, as the code has it. \<^verbatim>\<open>useStore\<close> outside every Provider, where the
  context holds no store, throws the error \<^verbatim>\<open>Store not found!\<close>, however it is
  rendered. With a store in the context, as the children of a Provider have it, a render
  on the client returns the selected state with that store's \<^verbatim>\<open>set\<close> and throws only
  what the selector throws; in the server renderer and while hydrating \<^verbatim>\<open>useStore\<close>
  throws, since it passes no \<^verbatim>\<open>getServerSnapshot\<close>.
\<close>

theorem useStore_outside_Provider:
  "useStore r selector None w = Inl (Error ''Store not found!'') \<and>
   useStore Client selector (Some st) w =
     (case selector (get st w) of Inl e \<Rightarrow> Inl e | Inr state \<Rightarrow> Inr (state, st)) \<and>
   useStore Server selector (Some st) w =
     Inl (Error ''Missing getServerSnapshot, which is required for server-rendered content. Will revert to client rendering.'') \<and>
   useStore Hydration selector (Some st) w =
     Inl (Error ''Missing getServerSnapshot, which is required for server-rendered content. Will revert to client rendering.'') \<and>
   fst (Provider initialState w) = Some (fst (useStoreData initialState w))"
  by (simp add: useStore_def Provider_def useStoreData_def useSyncExternalStore_def)

text \<open>
  The claim as the specification words it fails in its last part: below a Provider of
  \<^verbatim>\<open>{count: 0}\<close>, \<^verbatim>\<open>useStore\<close> rendered by the server renderer throws.
\<close>

theorem useStore_inside_Provider_throws:
  "fst (Provider [(''count'', Num 0)] fresh) = Some 0 \<and>
   get 0 (snd (Provider [(''count'', Num 0)] fresh)) = [(''count'', Num 0)] \<and>
   useStore Server (\<lambda>s. Inr (map_of s ''count''))
       (fst (Provider [(''count'', Num 0)] fresh)) (snd (Provider [(''count'', Num 0)] fresh)) =
     Inl (Error ''Missing getServerSnapshot, which is required for server-rendered content. Will revert to client rendering.'')"
  by (simp add: useStore_def Provider_def useStoreData_def useSyncExternalStore_def fresh_def get_def)

text \<open>
  Claim C10. After a sequence of \<^verbatim>\<open>subscribe\<close> calls with no unsubscribe between
  them, one \<^verbatim>\<open>set\<close> (the subscribers only read) invokes the subscribers in the
  order of their first subscription: those registered before, then the new ones. When
  no callback occurs twice, that is the registry's earlier members followed by the
  sequence itself.
\<close>

theorem set_value_insertion_order:
  assumes "wf_set (subscribers (cells w h))"
    and "readers \<rho> (subscribers (cells (subscribe_all h cbs w) h))"
    and "length (subscribers (cells (subscribe_all h cbs w) h)) < n"
  shows "\<exists>w'. set_value n \<rho> h v (subscribe_all h cbs w) = Some w' \<and>
           invoked (new_events (subscribe_all h cbs w) w') =
             rev (remdups (rev (members (subscribers (cells w h)) @ cbs))) \<and>
           (distinct (members (subscribers (cells w h)) @ cbs) \<longrightarrow>
              invoked (new_events (subscribe_all h cbs w) w') =
                members (subscribers (cells w h)) @ cbs)"
proof -
  from set_value_readers [OF assms(2,3), of v] obtain w' evs where
    w': "set_value n \<rho> h v (subscribe_all h cbs w) = Some w'"
      "trace w' = trace (subscribe_all h cbs w) @
         Wrote h (spread (get h (subscribe_all h cbs w)) v) # evs"
      "invoked evs = members (subscribers (cells (subscribe_all h cbs w) h))"
    by auto
  have inv: "invoked (new_events (subscribe_all h cbs w) w') =
      rev (remdups (rev (members (subscribers (cells w h)) @ cbs)))"
    using w'(2,3) members_subscribe_all [OF assms(1)] by (simp add: new_events_append)
  have "distinct (members (subscribers (cells w h)) @ cbs) \<longrightarrow>
      rev (remdups (rev (members (subscribers (cells w h)) @ cbs))) =
        members (subscribers (cells w h)) @ cbs"
    by (metis distinct_remdups_id distinct_rev rev_rev_ident)
  with w'(1) inv show ?thesis
    by (intro exI [of _ w']) simp
qed

text \<open>
  On a new store, subscribing 3, 1, 2 and 1 again: \<^verbatim>\<open>set\<close> invokes 3, 1, 2 in this
  order.
\<close>

theorem set_value_insertion_order_witness:
  "wf_set (subscribers (cells count_world 0)) \<and>
   readers reader (subscribers (cells (subscribe_all 0 [3, 1, 2, 1] count_world) 0)) \<and>
   length (subscribers (cells (subscribe_all 0 [3, 1, 2, 1] count_world) 0)) < 4 \<and>
   (\<exists>w'. set_value 4 reader 0 [(''count'', Num 1)] (subscribe_all 0 [3, 1, 2, 1] count_world) = Some w' \<and>
      invoked (new_events (subscribe_all 0 [3, 1, 2, 1] count_world) w') = [3, 1, 2])"
proof -
  have h1: "wf_set (subscribers (cells count_world 0))"
    by (simp add: wf_set_def count_world_def useStoreData_def fresh_def)
  have h2: "readers reader (subscribers (cells (subscribe_all 0 [3, 1, 2, 1] count_world) 0))"
    unfolding subscribe_all_count_world by (simp add: readers_def reader_def)
  have h3: "length (subscribers (cells (subscribe_all 0 [3, 1, 2, 1] count_world) 0)) < 4"
    unfolding subscribe_all_count_world by simp
  have ms: "members (subscribers (cells count_world 0)) = []"
    by (simp add: count_world_def useStoreData_def fresh_def)
  from set_value_insertion_order [OF h1 h2 h3, of "[(''count'', Num 1)]"] obtain w' where
    "set_value 4 reader 0 [(''count'', Num 1)] (subscribe_all 0 [3, 1, 2, 1] count_world) = Some w'"
    "invoked (new_events (subscribe_all 0 [3, 1, 2, 1] count_world) w') =
       rev (remdups (rev (members (subscribers (cells count_world 0)) @ [3, 1, 2, 1])))"
    by blast
  then have "\<exists>w'. set_value 4 reader 0 [(''count'', Num 1)] (subscribe_all 0 [3, 1, 2, 1] count_world) = Some w' \<and>
      invoked (new_events (subscribe_all 0 [3, 1, 2, 1] count_world) w') = [3, 1, 2]"
    unfolding ms by (intro exI [of _ w']) simp
  with h1 h2 h3 show ?thesis by blast
qed

end
